theory Spec2Isabelle
  imports Main "HOL-Library.Char_ord" "HOL-Library.List_Lexorder" "HOL-Library.Sublist"
begin

section \<open>JSON values\<close>

text \<open>
  The components work on what \<^verbatim>\<open>JSON.parse\<close> returns: \<^verbatim>\<open>null\<close>, booleans, numbers,
  strings, arrays and plain objects. The type parameter \<open>'n\<close> stands for the numbers
  (the doubles \<^verbatim>\<open>JSON.parse\<close> can return, never NaN, with \<open>+0\<close> and \<open>-0\<close> identified as
  lodash's \<^verbatim>\<open>isEqual\<close> identifies them); no function below computes with a number. A
  string is a list of characters, each standing for one code unit. An object is the list
  of its own properties in the order \<^verbatim>\<open>Object.keys\<close> enumerates them; the keys of a
  JavaScript object are pairwise distinct, which \<open>wfJson\<close> states for every nesting level.
  (A parsed object also has its array-index keys first; the properties below do not need
  that.)
\<close>

datatype 'n json =
    JNull
  | JBool bool
  | JNum 'n
  | JStr string
  | JArr (elems: "'n json list")
  | JObj (props: "(string \<times> 'n json) list")

fun isObject :: "'n json \<Rightarrow> bool" where
  "isObject (JArr xs) = True"
| "isObject (JObj kvs) = True"
| "isObject v = False"

fun isArray :: "'n json \<Rightarrow> bool" where
  "isArray (JArr xs) = True"
| "isArray v = False"

fun wfJson :: "'n json \<Rightarrow> bool" where
  "wfJson (JArr xs) = list_all wfJson xs"
| "wfJson (JObj kvs) = (distinct (map fst kvs) \<and> list_all (\<lambda>kv. wfJson (snd kv)) kvs)"
| "wfJson v = True"

text \<open>The number of nodes that are neither arrays nor objects.\<close>

fun leaves :: "'n json \<Rightarrow> nat" where
  "leaves (JArr xs) = sum_list (map leaves xs)"
| "leaves (JObj kvs) = sum_list (map (\<lambda>kv. leaves (snd kv)) kvs)"
| "leaves v = 1"

section \<open>Paths\<close>

text \<open>
  Paths are strings built by template literals: \<^verbatim>\<open>`${path}[${i}]`\<close> for an array
  index and \<^verbatim>\<open>path ? `${path}.${key}` : key\<close> for an object key. \<open>showNat\<close> is the
  decimal rendering of an index.
\<close>

definition digitChar :: "nat \<Rightarrow> char" where
  "digitChar d = ''0123456789'' ! d"

fun showNat :: "nat \<Rightarrow> string" where
  "showNat n = (if n < 10 then [digitChar n] else showNat (n div 10) @ [digitChar (n mod 10)])"

declare showNat.simps [simp del]

definition idxPath :: "string \<Rightarrow> nat \<Rightarrow> string" where
  "idxPath path i = path @ ''['' @ showNat i @ '']''"

definition keyPath :: "string \<Rightarrow> string \<Rightarrow> string" where
  "keyPath path k = (if path \<noteq> [] then path @ ''.'' @ k else k)"

definition orRoot :: "string \<Rightarrow> string" where
  "orRoot path = (if path \<noteq> [] then path else ''root'')"

section \<open>Rows and records\<close>

text \<open>
  The interfaces \<^verbatim>\<open>JsonNode\<close> (JsonViewer.tsx) and \<^verbatim>\<open>JsonDiffResult\<close>
  (JsonTools_new.tsx). Both have fields \<open>path\<close> and \<open>type\<close>; written alone the two names
  mean the fields of \<open>JsonDiffResult\<close>, and \<open>JsonNode.path\<close> is the field of a row. An
  absent optional field of a diff record is \<open>None\<close>.
\<close>

datatype nodeType = TObject | TArray | TString | TNumber | TBoolean | TNull

record 'n JsonNode =
  key :: string
  "value" :: "'n json"
  type :: nodeType
  path :: string
  level :: nat
  isExpanded :: bool
  hasChildren :: bool
  isVisible :: bool

datatype diffType = Added | Removed | Changed | Unchanged

record 'n JsonDiffResult =
  path :: string
  type :: diffType
  leftValue :: "'n json option"
  rightValue :: "'n json option"

section \<open>The diff engine (JsonTools_new.tsx)\<close>

text \<open>
  An exception is a value: a function that can raise returns \<open>Inl\<close> of the error, and
  \<open>Inr\<close> of its result otherwise. The only exception that the diff of two parsed
  values can raise is the \<^verbatim>\<open>TypeError\<close> of lodash's \<^verbatim>\<open>isEqual\<close> below.
\<close>

datatype error = TypeError

text \<open>
  lodash's \<^verbatim>\<open>isEqual\<close> (\<^verbatim>\<open>baseIsEqual\<close>, \<^verbatim>\<open>baseIsEqualDeep\<close>, \<^verbatim>\<open>equalArrays\<close>,
  \<^verbatim>\<open>equalObjects\<close>) on parsed JSON, the two values being different references when they
  are arrays or objects. Two values that are not arrays or objects are equal when they are
  the same value; \<^verbatim>\<open>null\<close> is equal to nothing else. Two arrays are equal when they have
  the same length and equal elements, compared index by index up to the first difference.
  When one side is a plain object with an own key \<^verbatim>\<open>__wrapped__\<close> (and the other is
  neither \<^verbatim>\<open>null\<close> nor, together with it, an array pair), lodash takes it for one of its
  wrappers and calls its \<^verbatim>\<open>value()\<close>, which no parsed value has: a \<^verbatim>\<open>TypeError\<close>.
  Otherwise values of different kinds are unequal, and two plain objects are equal when
  they have the same number of keys, every key of the first is a key of the second, and
  the values are equal, compared key by key up to the first difference.
\<close>

definition hasWrapped :: "(string \<times> 'n json) list \<Rightarrow> bool" where
  "hasWrapped ps = (''__wrapped__'' \<in> set (map fst ps))"

fun isEqual :: "'n json \<Rightarrow> 'n json \<Rightarrow> error + bool"
  and equalArrays :: "'n json list \<Rightarrow> 'n json list \<Rightarrow> error + bool"
  and equalObjects :: "(string \<times> 'n json) list \<Rightarrow> (string \<times> 'n json) list \<Rightarrow> error + bool"
where
  "isEqual (JArr xs) (JArr ys) =
     (if length xs \<noteq> length ys then Inr False else equalArrays xs ys)"
| "isEqual (JObj l) (JObj r) =
     (if hasWrapped l \<or> hasWrapped r then Inl TypeError
      else if length l \<noteq> length r then Inr False
      else if \<not> list_all (\<lambda>k. k \<in> set (map fst r)) (map fst l) then Inr False
      else equalObjects l r)"
| "isEqual (JObj l) JNull = Inr False"
| "isEqual JNull (JObj r) = Inr False"
| "isEqual (JObj l) b = (if hasWrapped l then Inl TypeError else Inr False)"
| "isEqual a (JObj r) = (if hasWrapped r then Inl TypeError else Inr False)"
| "isEqual a b = Inr (a = b)"
| "equalArrays (x # xs) (y # ys) =
     (case isEqual x y of
        Inl e \<Rightarrow> Inl e
      | Inr eq \<Rightarrow> if eq then equalArrays xs ys else Inr False)"
| "equalArrays xs ys = Inr True"
| "equalObjects ((k, v) # l) r =
     (case map_of r k of
        None \<Rightarrow> Inr False
      | Some w \<Rightarrow>
          (case isEqual v w of
             Inl e \<Rightarrow> Inl e
           | Inr eq \<Rightarrow> if eq then equalObjects l r else Inr False))"
| "equalObjects [] r = Inr True"

text \<open>\<^verbatim>\<open>[...new Set(xs)]\<close>: the elements of \<open>xs\<close> in order of first occurrence.\<close>

definition uniq :: "'a list \<Rightarrow> 'a list" where
  "uniq xs = foldl (\<lambda>s x. if x \<in> set s then s else s @ [x]) [] xs"

definition mkChanged :: "string \<Rightarrow> 'n json \<Rightarrow> 'n json \<Rightarrow> 'n JsonDiffResult" where
  "mkChanged p l r = \<lparr>path = p, type = Changed, leftValue = Some l, rightValue = Some r\<rparr>"

definition mkUnchanged :: "string \<Rightarrow> 'n json \<Rightarrow> 'n json \<Rightarrow> 'n JsonDiffResult" where
  "mkUnchanged p l r = \<lparr>path = p, type = Unchanged, leftValue = Some l, rightValue = Some r\<rparr>"

definition mkAdded :: "string \<Rightarrow> 'n json \<Rightarrow> 'n JsonDiffResult" where
  "mkAdded p r = \<lparr>path = p, type = Added, leftValue = None, rightValue = Some r\<rparr>"

definition mkRemoved :: "string \<Rightarrow> 'n json \<Rightarrow> 'n JsonDiffResult" where
  "mkRemoved p l = \<lparr>path = p, type = Removed, leftValue = Some l, rightValue = None\<rparr>"

text \<open>
  \<open>map_of (props left) k\<close> is \<open>Some v\<close> when \<open>k\<close> is a key of \<open>left\<close>
  (\<^verbatim>\<open>leftKeys.includes(key)\<close>) with \<open>v\<close> the value \<^verbatim>\<open>left[key]\<close>, and \<open>None\<close> otherwise.
  The results array is the accumulator of the two loops; once \<^verbatim>\<open>isEqual\<close> or a
  recursive call has raised, the accumulator is the exception and no later iteration
  changes it.
\<close>

function generateSmartJsonDiff ::
  "'n json \<Rightarrow> 'n json \<Rightarrow> string \<Rightarrow> error + 'n JsonDiffResult list" where
  "generateSmartJsonDiff left right path' =
    (if \<not> isObject left \<or> \<not> isObject right then
       (case isEqual left right of
          Inl e \<Rightarrow> Inl e
        | Inr eq \<Rightarrow>
            if \<not> eq then Inr [mkChanged (orRoot path') left right]
            else Inr [mkUnchanged (orRoot path') left right])
     else if isArray left \<noteq> isArray right then Inr [mkChanged (orRoot path') left right]
     else if isArray left \<and> isArray right then
       foldl (\<lambda>results i.
           case results of
             Inl e \<Rightarrow> Inl e
           | Inr rs \<Rightarrow>
               if i \<ge> length (elems left) then
                 Inr (rs @ [mkAdded (idxPath path' i) (elems right ! i)])
               else if i \<ge> length (elems right) then
                 Inr (rs @ [mkRemoved (idxPath path' i) (elems left ! i)])
               else
                 (case generateSmartJsonDiff (elems left ! i) (elems right ! i) (idxPath path' i) of
                    Inl e \<Rightarrow> Inl e
                  | Inr ds \<Rightarrow> Inr (rs @ ds)))
         (Inr []) [0..<max (length (elems left)) (length (elems right))]
     else
       foldl (\<lambda>results k.
           case results of
             Inl e \<Rightarrow> Inl e
           | Inr rs \<Rightarrow>
               (case (map_of (props left) k, map_of (props right) k) of
                  (Some l, Some r) \<Rightarrow>
                    (case generateSmartJsonDiff l r (keyPath path' k) of
                       Inl e \<Rightarrow> Inl e
                     | Inr ds \<Rightarrow> Inr (rs @ ds))
                | (Some l, None) \<Rightarrow> Inr (rs @ [mkRemoved (keyPath path' k) l])
                | (None, Some r) \<Rightarrow> Inr (rs @ [mkAdded (keyPath path' k) r])
                | (None, None) \<Rightarrow> Inr rs))
         (Inr []) (uniq (map fst (props left) @ map fst (props right))))"
  by pat_completeness auto
termination
proof (relation "measure (\<lambda>(l, r, p). size l)", goal_cases)
  case 1
  show ?case by simp
next
  case 2
  have "size (xs ! j) < Suc (size_list size xs)" if "j < length xs"
    for j and xs :: "'a json list"
    using size_list_estimation' [OF nth_mem order_refl, of j xs size] that by simp
  then have est: "size (elems v ! j) < size v" if "isArray v" "j < length (elems v)"
    for j and v :: "'a json"
    using that by (cases v) simp_all
  from 2 show ?case by (auto intro: est)
next
  case 3
  have "size l < Suc (size_list (size_prod (\<lambda>x. 0) size) kvs)" if "map_of kvs k = Some l"
    for k l and kvs :: "(string \<times> 'a json) list"
    using that by (induction kvs) (auto split: if_splits)
  then have est: "size l < size v" if "isObject v" "\<not> isArray v" "map_of (props v) k = Some l"
    for k l and v :: "'a json"
    using that by (cases v) simp_all
  from 3 show ?case by (auto intro: est)
qed

declare generateSmartJsonDiff.simps [simp del]

text \<open>The bodies of the two loops, as what one iteration appends or raises.\<close>

definition arrStep ::
  "'n json list \<Rightarrow> 'n json list \<Rightarrow> string \<Rightarrow> nat \<Rightarrow> error + 'n JsonDiffResult list" where
  "arrStep l r p i =
     (if i \<ge> length l then Inr [mkAdded (idxPath p i) (r ! i)]
      else if i \<ge> length r then Inr [mkRemoved (idxPath p i) (l ! i)]
      else generateSmartJsonDiff (l ! i) (r ! i) (idxPath p i))"

definition objStep ::
  "(string \<times> 'n json) list \<Rightarrow> (string \<times> 'n json) list \<Rightarrow> string \<Rightarrow> string \<Rightarrow>
   error + 'n JsonDiffResult list" where
  "objStep l r p k =
     (case (map_of l k, map_of r k) of
        (Some a, Some b) \<Rightarrow> generateSmartJsonDiff a b (keyPath p k)
      | (Some a, None) \<Rightarrow> Inr [mkRemoved (keyPath p k) a]
      | (None, Some b) \<Rightarrow> Inr [mkAdded (keyPath p k) b]
      | (None, None) \<Rightarrow> Inr [])"

text \<open>
  The outcome of a loop from the outcomes of its iterations: the first exception, or the
  appended lists when no iteration raises.
\<close>

fun collect :: "('e + 'a list) list \<Rightarrow> 'e + 'a list" where
  "collect [] = Inr []"
| "collect (Inl e # rs) = Inl e"
| "collect (Inr xs # rs) = (case collect rs of Inl e \<Rightarrow> Inl e | Inr ys \<Rightarrow> Inr (xs @ ys))"

text \<open>The records of an outcome: none when it is an exception.\<close>

definition records :: "'e + 'a list \<Rightarrow> 'a list" where
  "records r = (case r of Inl e \<Rightarrow> [] | Inr ds \<Rightarrow> ds)"

section \<open>The formatter (JsonTools_new.tsx)\<close>

text \<open>
  \<^verbatim>\<open>String.prototype.trim\<close> removes white space and line terminators at both ends; among
  the characters of the model these are tab, line feed, vertical tab, form feed, carriage
  return, space and the no-break space.
\<close>

definition isSpace :: "char \<Rightarrow> bool" where
  "isSpace c = (c \<in> set [CHR 0x09, CHR 0x0A, CHR 0x0B, CHR 0x0C, CHR 0x0D, CHR 0x20, CHR 0xA0])"

definition trim :: "string \<Rightarrow> string" where
  "trim s = rev (dropWhile isSpace (rev (dropWhile isSpace s)))"

text \<open>
  The own properties of an ordinary object are enumerated with the array indices first,
  in ascending numeric order, then the other string keys in the order they were created.
  A key is an array index when it is the canonical decimal form of an integer below
  \<open>2\<^sup>3\<^sup>2 - 1\<close>.
\<close>

definition digitVal :: "char \<Rightarrow> nat" where
  "digitVal c = length (takeWhile (\<lambda>d. d \<noteq> c) ''0123456789'')"

definition readNat :: "string \<Rightarrow> nat" where
  "readNat s = foldl (\<lambda>a c. 10 * a + digitVal c) 0 s"

definition isArrayIndex :: "string \<Rightarrow> bool" where
  "isArrayIndex k = (showNat (readNat k) = k \<and> readNat k < 4294967295)"

text \<open>
  The assignment \<^verbatim>\<open>sortedObj[key] = v\<close> on a plain object with the own properties \<open>ps\<close>. The key
  \<^verbatim>\<open>__proto__\<close> reaches the setter inherited from \<^verbatim>\<open>Object.prototype\<close>, which creates no
  own property (it changes the prototype when \<open>v\<close> is an object or null, which neither
  \<^verbatim>\<open>Object.keys\<close> nor \<^verbatim>\<open>JSON.stringify\<close> observe). An existing key keeps its place; a
  new array index goes to its numeric place; any other new key goes to the end.
\<close>

definition objSet :: "(string \<times> 'n json) list \<Rightarrow> string \<Rightarrow> 'n json \<Rightarrow> (string \<times> 'n json) list" where
  "objSet ps k v =
     (if k = ''__proto__'' then ps
      else if k \<in> set (map fst ps) then map (\<lambda>kv. if fst kv = k then (k, v) else kv) ps
      else if isArrayIndex k then
        takeWhile (\<lambda>kv. isArrayIndex (fst kv) \<and> readNat (fst kv) < readNat k) ps @ [(k, v)] @
        dropWhile (\<lambda>kv. isArrayIndex (fst kv) \<and> readNat (fst kv) < readNat k) ps
      else ps @ [(k, v)])"

function sortObjectKeys :: "'n json \<Rightarrow> 'n json" where
  "sortObjectKeys (JArr xs) = JArr (map sortObjectKeys xs)"
| "sortObjectKeys (JObj kvs) =
     JObj (foldl (\<lambda>sortedObj k.
               case map_of kvs k of
                 Some v \<Rightarrow> objSet sortedObj k (sortObjectKeys v)
               | None \<Rightarrow> sortedObj)
             [] (sort (map fst kvs)))"
| "sortObjectKeys JNull = JNull"
| "sortObjectKeys (JBool b) = JBool b"
| "sortObjectKeys (JNum n) = JNum n"
| "sortObjectKeys (JStr s) = JStr s"
  by pat_completeness auto
termination
proof (relation "measure size", goal_cases)
  case 1
  show ?case by simp
next
  case (2 xs x)
  then show ?case using size_list_estimation' [OF _ order_refl, of x xs size] by simp
next
  case (3 kvs sortedObj k v)
  have "map_of ps k = Some v \<Longrightarrow> size v < Suc (size_list (size_prod (\<lambda>x. 0) size) ps)"
    for ps :: "(string \<times> 'a json) list"
    by (induction ps) (auto split: if_splits)
  with 3 show ?case by simp
qed

text \<open>
  \<open>parse\<close> stands for \<^verbatim>\<open>JSON.parse\<close> (\<open>None\<close> when it throws) and \<open>stringify\<close> for
  \<^verbatim>\<open>JSON.stringify\<close> with its indentation argument (\<open>None\<close> when the call passes none).
  \<open>stringifyCall\<close> is the call of \<^verbatim>\<open>JSON.stringify\<close> that \<^verbatim>\<open>formattedJson\<close> makes, if
  it makes one; \<open>formattedJson\<close> is its result.
\<close>

definition stringifyCall ::
  "(string \<Rightarrow> 'n json option) \<Rightarrow> string \<Rightarrow> nat \<Rightarrow> bool \<Rightarrow> bool \<Rightarrow> ('n json \<times> nat option) option" where
  "stringifyCall parse jsonInput' indentSize sortKeys compactMode =
     (if trim jsonInput' = [] then None
      else case parse jsonInput' of
        None \<Rightarrow> None
      | Some parsed \<Rightarrow>
          if compactMode then Some (parsed, None)
          else if sortKeys then Some (sortObjectKeys parsed, Some indentSize)
          else Some (parsed, Some indentSize))"

definition formattedJson ::
  "(string \<Rightarrow> 'n json option) \<Rightarrow> ('n json \<Rightarrow> nat option \<Rightarrow> string) \<Rightarrow>
   string \<Rightarrow> nat \<Rightarrow> bool \<Rightarrow> bool \<Rightarrow> string" where
  "formattedJson parse stringify jsonInput' indentSize sortKeys compactMode =
     (case stringifyCall parse jsonInput' indentSize sortKeys compactMode of
        None \<Rightarrow> []
      | Some (v, indent) \<Rightarrow> stringify v indent)"

definition isValidJson :: "(string \<Rightarrow> 'n json option) \<Rightarrow> string \<Rightarrow> bool" where
  "isValidJson parse jsonInput' =
     (if trim jsonInput' = [] then True
      else case parse jsonInput' of Some parsed \<Rightarrow> True | None \<Rightarrow> False)"

definition diffResult ::
  "(string \<Rightarrow> 'n json option) \<Rightarrow> string \<Rightarrow> string \<Rightarrow> 'n JsonDiffResult list" where
  "diffResult parse leftJson rightJson =
     (if trim leftJson = [] \<or> trim rightJson = [] then []
      else case parse leftJson of
        None \<Rightarrow> []
      | Some leftParsed \<Rightarrow>
          (case parse rightJson of
             None \<Rightarrow> []
           | Some rightParsed \<Rightarrow>
               (case generateSmartJsonDiff leftParsed rightParsed [] of
                  Inl e \<Rightarrow> []
                | Inr results \<Rightarrow> results)))"


text \<open>Every object key of the value satisfies \<open>P\<close>.\<close>

fun allKeys :: "(string \<Rightarrow> bool) \<Rightarrow> 'n json \<Rightarrow> bool" where
  "allKeys P (JArr xs) = list_all (allKeys P) xs"
| "allKeys P (JObj kvs) = (list_all P (map fst kvs) \<and> list_all (\<lambda>kv. allKeys P (snd kv)) kvs)"
| "allKeys P v = True"


section \<open>The tree view (JsonViewer.tsx)\<close>

text \<open>\<open>numStr\<close> stands for \<^verbatim>\<open>String(n)\<close> on a number.\<close>

function parseJsonToNodes ::
  "string set \<Rightarrow> ('n \<Rightarrow> string) \<Rightarrow> 'n json \<Rightarrow> string \<Rightarrow> nat \<Rightarrow> 'n JsonNode list" where
  "parseJsonToNodes expanded numStr JNull parentPath lvl =
     [\<lparr>key = ''null'', value = JNull, type = TNull, path = parentPath, level = lvl,
       isExpanded = False, hasChildren = False, isVisible = True\<rparr>]"
| "parseJsonToNodes expanded numStr (JBool b) parentPath lvl =
     [\<lparr>key = (if b then ''true'' else ''false''), value = JBool b, type = TBoolean,
       path = parentPath, level = lvl,
       isExpanded = False, hasChildren = False, isVisible = True\<rparr>]"
| "parseJsonToNodes expanded numStr (JNum n) parentPath lvl =
     [\<lparr>key = numStr n, value = JNum n, type = TNumber, path = parentPath, level = lvl,
       isExpanded = False, hasChildren = False, isVisible = True\<rparr>]"
| "parseJsonToNodes expanded numStr (JStr s) parentPath lvl =
     [\<lparr>key = s, value = JStr s, type = TString, path = parentPath, level = lvl,
       isExpanded = False, hasChildren = False, isVisible = True\<rparr>]"
| "parseJsonToNodes expanded numStr (JArr xs) parentPath lvl =
     (let nodes = [\<lparr>key = ''Array('' @ showNat (length xs) @ '')'', value = JArr xs,
                     type = TArray, path = parentPath, level = lvl,
                     isExpanded = (parentPath \<in> expanded), hasChildren = (length xs > 0),
                     isVisible = True\<rparr>]
      in if parentPath \<in> expanded then
           foldl (\<lambda>nodes ix.
                    nodes @ parseJsonToNodes expanded numStr (snd ix) (idxPath parentPath (fst ix)) (lvl + 1))
             nodes (enumerate 0 xs)
         else nodes)"
| "parseJsonToNodes expanded numStr (JObj kvs) parentPath lvl =
     (let keys = map fst kvs;
          nodes = [\<lparr>key = ''Object{'' @ showNat (length keys) @ ''}'', value = JObj kvs,
                     type = TObject, path = parentPath, level = lvl,
                     isExpanded = (parentPath \<in> expanded), hasChildren = (length keys > 0),
                     isVisible = True\<rparr>]
      in if parentPath \<in> expanded then
           foldl (\<lambda>nodes k.
                    case map_of kvs k of
                      Some child \<Rightarrow>
                        nodes @ parseJsonToNodes expanded numStr child (keyPath parentPath k) (lvl + 1)
                    | None \<Rightarrow> nodes)
             nodes keys
         else nodes)"
  by pat_completeness auto
termination
proof (relation "measure (\<lambda>(e, f, v, p, l). size v)", goal_cases)
  case 1
  show ?case by simp
next
  case 2
  have est: "j < length ys \<Longrightarrow> ys ! j = y \<Longrightarrow> size y < Suc (size_list size ys)"
    for j and y :: "'b::size" and ys
    using size_list_estimation' [OF nth_mem order_refl, of j ys size] by auto
  from 2 show ?case by (auto simp: in_set_enumerate_eq intro: est)
next
  case (3 expanded numStr kvs parentPath lvl keys nodes nodesa k child)
  have "map_of ps k = Some child \<Longrightarrow> size child < Suc (size_list (size_prod (\<lambda>x. 0) size) ps)"
    for ps :: "(string \<times> 'a json) list"
    by (induction ps) (auto split: if_splits)
  with 3 show ?case by simp
qed

text \<open>\<^verbatim>\<open>getAllPaths\<close>, local to \<^verbatim>\<open>expandAll\<close>: the path of every node of a value.\<close>

function getAllPaths :: "'n json \<Rightarrow> string \<Rightarrow> string list" where
  "getAllPaths (JArr xs) parentPath =
     foldl (\<lambda>paths ix. paths @ getAllPaths (snd ix) (idxPath parentPath (fst ix)))
       [parentPath] (enumerate 0 xs)"
| "getAllPaths (JObj kvs) parentPath =
     foldl (\<lambda>paths k.
              case map_of kvs k of
                Some child \<Rightarrow> paths @ getAllPaths child (keyPath parentPath k)
              | None \<Rightarrow> paths)
       [parentPath] (map fst kvs)"
| "getAllPaths JNull parentPath = [parentPath]"
| "getAllPaths (JBool b) parentPath = [parentPath]"
| "getAllPaths (JNum n) parentPath = [parentPath]"
| "getAllPaths (JStr s) parentPath = [parentPath]"
  by pat_completeness auto
termination
proof (relation "measure (\<lambda>(v, p). size v)", goal_cases)
  case 1
  show ?case by simp
next
  case 2
  have est: "j < length ys \<Longrightarrow> ys ! j = y \<Longrightarrow> size y < Suc (size_list size ys)"
    for j and y :: "'b::size" and ys
    using size_list_estimation' [OF nth_mem order_refl, of j ys size] by auto
  from 2 show ?case by (auto simp: in_set_enumerate_eq intro: est)
next
  case (3 kvs parentPath paths k child)
  have "map_of ps k = Some child \<Longrightarrow> size child < Suc (size_list (size_prod (\<lambda>x. 0) size) ps)"
    for ps :: "(string \<times> 'a json) list"
    by (induction ps) (auto split: if_splits)
  with 3 show ?case by simp
qed

text \<open>
  The component's state. \<open>parsedJson\<close> holds \<^verbatim>\<open>null\<close> until a document has been
  parsed, and again after an empty or malformed input.
\<close>

record 'n viewer =
  jsonInput :: string
  searchTerm :: string
  expandedPaths :: "string set"
  parsedJson :: "'n json"

definition initialViewer :: "'n viewer" where
  "initialViewer = \<lparr>jsonInput = [], searchTerm = [], expandedPaths = {}, parsedJson = JNull\<rparr>"

text \<open>JavaScript truthiness of a parsed value, as \<^verbatim>\<open>!parsedJson\<close> tests it.\<close>

fun truthy :: "'n::zero json \<Rightarrow> bool" where
  "truthy JNull = False"
| "truthy (JBool b) = b"
| "truthy (JNum n) = (n \<noteq> 0)"
| "truthy (JStr s) = (s \<noteq> [])"
| "truthy (JArr xs) = True"
| "truthy (JObj kvs) = True"

definition handleJsonInput :: "(string \<Rightarrow> 'n json option) \<Rightarrow> string \<Rightarrow> 'n viewer \<Rightarrow> 'n viewer" where
  "handleJsonInput parse v st =
     (let st = st\<lparr>jsonInput := v\<rparr>
      in if trim v = [] then st\<lparr>parsedJson := JNull\<rparr>
         else case parse v of
           Some parsed \<Rightarrow> st\<lparr>parsedJson := parsed\<rparr>
         | None \<Rightarrow> st\<lparr>parsedJson := JNull\<rparr>)"

definition toggleExpanded :: "string \<Rightarrow> 'n viewer \<Rightarrow> 'n viewer" where
  "toggleExpanded p st =
     st\<lparr>expandedPaths := (if p \<in> expandedPaths st then expandedPaths st - {p}
                            else insert p (expandedPaths st))\<rparr>"

definition expandAll :: "'n::zero viewer \<Rightarrow> 'n viewer" where
  "expandAll st =
     (if \<not> truthy (parsedJson st) then st
      else st\<lparr>expandedPaths := set (getAllPaths (parsedJson st) [])\<rparr>)"

definition collapseAll :: "'n viewer \<Rightarrow> 'n viewer" where
  "collapseAll st = st\<lparr>expandedPaths := {[]}\<rparr>"

definition nodes :: "('n \<Rightarrow> string) \<Rightarrow> 'n::zero viewer \<Rightarrow> 'n JsonNode list" where
  "nodes numStr st =
     (if \<not> truthy (parsedJson st) then []
      else parseJsonToNodes (expandedPaths st) numStr (parsedJson st) [] 0)"

text \<open>
  The effect with dependency \<^verbatim>\<open>[parsedJson]\<close> runs after a render in which \<open>parsedJson\<close>
  is not the same value as in the previous render (\<open>prev\<close>). A freshly parsed array or
  object is never the same as an earlier one.
\<close>

definition depChanged :: "'n json \<Rightarrow> 'n json \<Rightarrow> bool" where
  "depChanged prev cur = (isObject cur \<or> prev \<noteq> cur)"

definition parsedJsonEffect :: "'n json \<Rightarrow> 'n viewer \<Rightarrow> 'n viewer" where
  "parsedJsonEffect prev st =
     (if depChanged prev (parsedJson st) \<and> parsedJson st \<noteq> JNull
      then st\<lparr>expandedPaths := {[]}\<rparr> else st)"

text \<open>Typing into the text area: the change handler, then the effect of the re-render.\<close>

definition onChange :: "(string \<Rightarrow> 'n json option) \<Rightarrow> string \<Rightarrow> 'n viewer \<Rightarrow> 'n viewer" where
  "onChange parse v st = parsedJsonEffect (parsedJson st) (handleJsonInput parse v st)"

section \<open>Notions used to state the properties\<close>

text \<open>The nodes of a value that are neither arrays nor objects, in document order.\<close>

fun leafValues :: "'n json \<Rightarrow> 'n json list" where
  "leafValues (JArr xs) = concat (map leafValues xs)"
| "leafValues (JObj kvs) = concat (map (\<lambda>kv. leafValues (snd kv)) kvs)"
| "leafValues v = [v]"

text \<open>A record of an unchanged leaf: both sides hold the same non-container value.\<close>

definition selfRecord :: "'n JsonDiffResult \<Rightarrow> bool" where
  "selfRecord d = (type d = Unchanged \<and> leftValue d = rightValue d \<and>
     (case leftValue d of Some x \<Rightarrow> \<not> isObject x | None \<Rightarrow> False))"

text \<open>A record read from the other side: added and removed, left and right exchanged.\<close>

definition swapRecord :: "'n JsonDiffResult \<Rightarrow> 'n JsonDiffResult" where
  "swapRecord d =
     \<lparr>path = path d,
      type = (case type d of Added \<Rightarrow> Removed | Removed \<Rightarrow> Added
              | Changed \<Rightarrow> Changed | Unchanged \<Rightarrow> Unchanged),
      leftValue = rightValue d, rightValue = leftValue d\<rparr>"

text \<open>
  Two outcomes of the diff, one the other with the sides exchanged: both raise or neither
  does, and the records of one are the records of the other read from the other side.
\<close>

definition swapped ::
  "error + 'n JsonDiffResult list \<Rightarrow> error + 'n JsonDiffResult list \<Rightarrow> bool" where
  "swapped r' r = (isl r' = isl r \<and> set (records r') = swapRecord ` set (records r))"

text \<open>The immediate children of a value, in order.\<close>

fun children :: "'n json \<Rightarrow> 'n json list" where
  "children (JArr xs) = xs"
| "children (JObj kvs) = map snd kvs"
| "children v = []"

text \<open>An object that holds an array or object under the empty key.\<close>

fun emptyKeyContainer :: "'n json \<Rightarrow> bool" where
  "emptyKeyContainer (JObj kvs) = list_ex (\<lambda>kv. fst kv = [] \<and> isObject (snd kv)) kvs"
| "emptyKeyContainer v = False"

text \<open>The first row the tree view emits for a value: the row of the value itself.\<close>

definition rootRow :: "string set \<Rightarrow> ('n \<Rightarrow> string) \<Rightarrow> 'n json \<Rightarrow> string \<Rightarrow> nat \<Rightarrow> 'n JsonNode" where
  "rootRow E ns v p l = hd (parseJsonToNodes E ns v p l)"

text \<open>The body of the loop of \<open>sortObjectKeys\<close>.\<close>

definition sortStep :: "(string \<times> 'n json) list \<Rightarrow> (string \<times> 'n json) list \<Rightarrow> string \<Rightarrow> (string \<times> 'n json) list" where
  "sortStep kvs sortedObj k =
     (case map_of kvs k of Some v \<Rightarrow> objSet sortedObj k (sortObjectKeys v) | None \<Rightarrow> sortedObj)"

text \<open>The two characters that start a path segment.\<close>

definition special :: "char \<Rightarrow> bool" where
  "special c = (c = CHR ''.'' \<or> c = CHR ''['')"

text \<open>A string without a dot and without an opening bracket.\<close>

definition plain :: "string \<Rightarrow> bool" where
  "plain s = list_all (\<lambda>c. \<not> special c) s"

text \<open>What may follow a node's path in the path of a descendant.\<close>

definition tailOk :: "string \<Rightarrow> bool" where
  "tailOk t = (t = [] \<or> special (hd t))"

text \<open>Every object key of the value is non-empty and has neither a dot nor an opening bracket.\<close>

definition plainKeys :: "'n json \<Rightarrow> bool" where
  "plainKeys v = allKeys (\<lambda>k. k \<noteq> [] \<and> plain k) v"


text \<open>
  The nodes of a value in document order, each with the path accumulated on the way to
  it: the root at \<open>p\<close>, the element \<open>i\<close> of an array at the array's path extended by
  \<open>[i]\<close>, the value under the key \<open>k\<close> of an object at the object's path extended by the
  key.
\<close>

function nodesAt :: "'n json \<Rightarrow> string \<Rightarrow> (string \<times> 'n json) list" where
  "nodesAt (JArr xs) p =
     (p, JArr xs) # concat (map (\<lambda>ix. nodesAt (snd ix) (idxPath p (fst ix))) (enumerate 0 xs))"
| "nodesAt (JObj kvs) p =
     (p, JObj kvs) # concat (map (\<lambda>kv. nodesAt (snd kv) (keyPath p (fst kv))) kvs)"
| "nodesAt JNull p = [(p, JNull)]"
| "nodesAt (JBool b) p = [(p, JBool b)]"
| "nodesAt (JNum n) p = [(p, JNum n)]"
| "nodesAt (JStr s) p = [(p, JStr s)]"
  by pat_completeness auto
termination
proof (relation "measure (\<lambda>(v, p). size v)", goal_cases)
  case 1
  show ?case by simp
next
  case 2
  have est: "j < length ys \<Longrightarrow> ys ! j = y \<Longrightarrow> size y < Suc (size_list size ys)"
    for j and y :: "'b::size" and ys
    using size_list_estimation' [OF nth_mem order_refl, of j ys size] by auto
  from 2 show ?case by (auto simp: in_set_enumerate_eq intro: est)
next
  case 3
  have est: "kv \<in> set ps \<Longrightarrow> size (snd kv) < Suc (size_list (size_prod (\<lambda>x. 0) size) ps)"
    for kv and ps :: "(string \<times> 'b json) list"
    by (induction ps) auto
  from 3 show ?case by (simp add: est)
qed

text \<open>
  The string under which the diff engine reports each node of a document given to it with
  the path \<open>p\<close>: the accumulated path, and \<^verbatim>\<open>root\<close> where that is empty
  (\<^verbatim>\<open>path || 'root'\<close>).
\<close>

definition diffLabels :: "'n json \<Rightarrow> string \<Rightarrow> (string \<times> 'n json) list" where
  "diffLabels v p = map (\<lambda>qx. (orRoot (fst qx), snd qx)) (nodesAt v p)"

text \<open>The document is an object with the key \<^verbatim>\<open>root\<close> at its top level.\<close>

fun hasRootKey :: "'n json \<Rightarrow> bool" where
  "hasRootKey (JObj kvs) = (''root'' \<in> set (map fst kvs))"
| "hasRootKey v = False"

section \<open>Properties of the diff engine\<close>

lemma foldl_append_concat:
  assumes "\<And>res x. x \<in> set xs \<Longrightarrow> h res x = res @ g x"
  shows "foldl h acc xs = acc @ concat (map g xs)"
  using assms by (induction xs arbitrary: acc) simp_all

lemma uniq_foldl_set: "set (foldl (\<lambda>s x. if x \<in> set s then s else s @ [x]) acc xs) = set acc \<union> set xs"
  by (induction xs arbitrary: acc) auto

lemma uniq_foldl_distinct: "distinct acc \<Longrightarrow> distinct (foldl (\<lambda>s x. if x \<in> set s then s else s @ [x]) acc xs)"
  by (induction xs arbitrary: acc) auto

lemma uniq_foldl_filter:
  "distinct xs \<Longrightarrow> foldl (\<lambda>s x. if x \<in> set s then s else s @ [x]) acc xs = acc @ filter (\<lambda>x. x \<notin> set acc) xs"
proof (induction xs arbitrary: acc)
  case Nil
  then show ?case by simp
next
  case (Cons x xs)
  have "filter (\<lambda>y. y \<notin> set (acc @ [x])) xs = filter (\<lambda>y. y \<notin> set acc) xs"
    using Cons.prems by (intro filter_cong) auto
  with Cons show ?case by simp
qed

lemma set_uniq [simp]: "set (uniq xs) = set xs"
  by (simp add: uniq_def uniq_foldl_set)

lemma distinct_uniq [simp]: "distinct (uniq xs)"
  by (simp add: uniq_def uniq_foldl_distinct)

lemma uniq_distinct: "distinct xs \<Longrightarrow> uniq xs = xs"
  by (simp add: uniq_def uniq_foldl_filter)

lemma uniq_append:
  "distinct xs \<Longrightarrow> distinct ys \<Longrightarrow> uniq (xs @ ys) = xs @ filter (\<lambda>k. k \<notin> set xs) ys"
  by (simp add: uniq_def uniq_foldl_filter)

text \<open>A loop that stops at the first exception is \<open>collect\<close> over its iterations.\<close>

lemma foldl_Inl:
  assumes "\<And>e x. h (Inl e) x = Inl e"
  shows "foldl h (Inl e) xs = Inl e"
  by (induction xs) (simp_all add: assms)

lemma foldl_collect:
  assumes "\<And>rs x. x \<in> set xs \<Longrightarrow>
      h (Inr rs) x = (case g x of Inl e \<Rightarrow> Inl e | Inr ds \<Rightarrow> Inr (rs @ ds))"
    and "\<And>e x. h (Inl e) x = Inl e"
  shows "foldl h (Inr acc) xs =
         (case collect (map g xs) of Inl e \<Rightarrow> Inl e | Inr ys \<Rightarrow> Inr (acc @ ys))"
  using assms(1)
proof (induction xs arbitrary: acc)
  case Nil
  show ?case by simp
next
  case (Cons x xs)
  show ?case
  proof (cases "g x")
    case (Inl e)
    then have "h (Inr acc) x = Inl e" using Cons.prems [of x acc] by simp
    then show ?thesis using Inl by (simp add: foldl_Inl [of h, OF assms(2)])
  next
    case (Inr ds)
    then have "h (Inr acc) x = Inr (acc @ ds)" using Cons.prems [of x acc] by simp
    moreover have "foldl h (Inr (acc @ ds)) xs =
        (case collect (map g xs) of Inl e \<Rightarrow> Inl e | Inr ys \<Rightarrow> Inr ((acc @ ds) @ ys))"
      using Cons.prems by (intro Cons.IH) simp
    ultimately show ?thesis using Inr by (simp split: sum.splits)
  qed
qed

lemma collect_Inr:
  assumes "\<And>x. x \<in> set xs \<Longrightarrow> f x = Inr (g x)"
  shows "collect (map f xs) = Inr (concat (map g xs))"
  using assms by (induction xs) simp_all

lemma isl_collect: "isl (collect rs) \<longleftrightarrow> (\<exists>r \<in> set rs. isl r)"
  by (induction rs rule: collect.induct) (auto split: sum.splits)

lemma records_simps [simp]: "records (Inl e) = []" "records (Inr ds) = ds"
  by (simp_all add: records_def)

lemma records_isl: "isl r \<Longrightarrow> records r = []"
  by (cases r) simp_all

lemma set_records_collect:
  "\<not> isl (collect rs) \<Longrightarrow> set (records (collect rs)) = (\<Union>r \<in> set rs. set (records r))"
  by (induction rs rule: collect.induct) (auto split: sum.splits)

lemma collect_image:
  assumes "set xs = set ys"
    and "\<And>x. x \<in> set xs \<Longrightarrow>
      isl (f x) = isl (g x) \<and> set (records (f x)) = F ` set (records (g x))"
  shows "isl (collect (map f xs)) = isl (collect (map g ys))
       \<and> set (records (collect (map f xs))) = F ` set (records (collect (map g ys)))"
proof -
  have i: "isl (collect (map f xs)) = isl (collect (map g ys))"
    using assms by (auto simp: isl_collect)
  show ?thesis
  proof (cases "isl (collect (map g ys))")
    case True
    with i show ?thesis by (simp add: records_isl)
  next
    case False
    with i have "\<not> isl (collect (map f xs))" by simp
    then have "set (records (collect (map f xs))) = (\<Union>x \<in> set xs. set (records (f x)))"
      by (simp add: set_records_collect)
    also have "\<dots> = (\<Union>x \<in> set xs. F ` set (records (g x)))"
      using assms(2) by simp
    also have "\<dots> = F ` (\<Union>x \<in> set ys. set (records (g x)))"
      using assms(1) by (simp add: image_UN)
    also have "\<dots> = F ` set (records (collect (map g ys)))"
      using False by (simp add: set_records_collect)
    finally show ?thesis using i by simp
  qed
qed

text \<open>The diff, one branch at a time.\<close>

lemma diff_leaf:
  "\<not> isObject left \<or> \<not> isObject right \<Longrightarrow>
   generateSmartJsonDiff left right p =
     (case isEqual left right of
        Inl e \<Rightarrow> Inl e
      | Inr eq \<Rightarrow> Inr [if eq then mkUnchanged (orRoot p) left right
                       else mkChanged (orRoot p) left right])"
  by (subst generateSmartJsonDiff.simps) (auto split: sum.splits)

lemma diff_arr_obj:
  "generateSmartJsonDiff (JArr l) (JObj r) p = Inr [mkChanged (orRoot p) (JArr l) (JObj r)]"
  by (subst generateSmartJsonDiff.simps) simp

lemma diff_obj_arr:
  "generateSmartJsonDiff (JObj l) (JArr r) p = Inr [mkChanged (orRoot p) (JObj l) (JArr r)]"
  by (subst generateSmartJsonDiff.simps) simp

lemma diff_arr:
  "generateSmartJsonDiff (JArr l) (JArr r) p =
     collect (map (arrStep l r p) [0..<max (length l) (length r)])"
  by (subst generateSmartJsonDiff.simps, simp, subst foldl_collect [where g = "arrStep l r p"])
     (simp_all add: arrStep_def split: sum.splits)

lemma diff_obj:
  "generateSmartJsonDiff (JObj l) (JObj r) p =
     collect (map (objStep l r p) (uniq (map fst l @ map fst r)))"
  by (subst generateSmartJsonDiff.simps, simp, subst foldl_collect [where g = "objStep l r p"])
     (simp_all add: objStep_def split: option.splits sum.splits)

lemmas diff_eqs = diff_leaf diff_arr_obj diff_obj_arr diff_arr diff_obj

text \<open>
  The comparison where the diff calls it: one side at least is no array and no object.
  It raises exactly when the other side is an object with the own key \<^verbatim>\<open>__wrapped__\<close>
  and the first is not \<^verbatim>\<open>null\<close>.
\<close>

lemma isEqual_leaf: "\<not> isObject a \<Longrightarrow> \<not> isObject b \<Longrightarrow> isEqual a b = Inr (a = b)"
  by (cases a; cases b) auto

lemma isEqual_leaf_refl: "\<not> isObject a \<Longrightarrow> isEqual a a = Inr True"
  by (simp add: isEqual_leaf)

lemma isEqual_leaf_sym: "\<not> isObject a \<or> \<not> isObject b \<Longrightarrow> isEqual b a = isEqual a b"
  by (cases a; cases b) auto

lemma isEqual_leaf_obj:
  "\<not> isObject a \<Longrightarrow> isEqual a (JObj r) = (if hasWrapped r \<and> a \<noteq> JNull then Inl TypeError else Inr False)"
  by (cases a) auto

lemma isEqual_leaf_arr: "\<not> isObject a \<Longrightarrow> isEqual a (JArr r) = Inr False"
  by (cases a) auto

lemma map_of_distinct_fst:
  "distinct (map fst kvs) \<Longrightarrow> kv \<in> set kvs \<Longrightarrow> map_of kvs (fst kv) = Some (snd kv)"
  by (cases kv) simp

lemma objStep_self:
  assumes "distinct (map fst kvs)" "kv \<in> set kvs"
  shows "objStep kvs kvs p (fst kv) = generateSmartJsonDiff (snd kv) (snd kv) (keyPath p (fst kv))"
  using map_of_distinct_fst [OF assms] by (simp add: objStep_def)

lemma arrStep_self:
  "i < length xs \<Longrightarrow> arrStep xs xs p i = generateSmartJsonDiff (xs ! i) (xs ! i) (idxPath p i)"
  by (simp add: arrStep_def)

lemma diff_self_obj:
  assumes "distinct (map fst kvs)"
  shows "generateSmartJsonDiff (JObj kvs) (JObj kvs) p =
         collect (map (\<lambda>kv. generateSmartJsonDiff (snd kv) (snd kv) (keyPath p (fst kv))) kvs)"
proof -
  have "uniq (map fst kvs @ map fst kvs) = map fst kvs"
    using assms by (simp add: uniq_append)
  moreover have "map (objStep kvs kvs p) (map fst kvs) =
      map (\<lambda>kv. generateSmartJsonDiff (snd kv) (snd kv) (keyPath p (fst kv))) kvs"
    using assms by (simp add: objStep_self)
  ultimately show ?thesis by (simp only: diff_obj)
qed

lemma diff_self_arr:
  "generateSmartJsonDiff (JArr xs) (JArr xs) p =
     collect (map (\<lambda>i. generateSmartJsonDiff (xs ! i) (xs ! i) (idxPath p i)) [0..<length xs])"
proof -
  have "map (arrStep xs xs p) [0..<length xs] =
      map (\<lambda>i. generateSmartJsonDiff (xs ! i) (xs ! i) (idxPath p i)) [0..<length xs]"
    by (simp add: arrStep_self)
  then show ?thesis by (simp only: diff_arr max.idem)
qed

lemma map_nth_upt: "map (\<lambda>i. g (xs ! i)) [0..<length xs] = map g xs"
  by (rule nth_equalityI) simp_all

lemma length_leafValues: "length (leafValues v) = leaves v"
proof (induction v)
  case (JArr xs)
  then have "map (\<lambda>x. length (leafValues x)) xs = map leaves xs" by simp
  then show ?case by (simp only: leafValues.simps leaves.simps length_concat map_map comp_def)
next
  case (JObj kvs)
  have "length (leafValues (snd kv)) = leaves (snd kv)" if "kv \<in> set kvs" for kv
    using JObj [of kv "snd kv"] that by (cases kv) auto
  then have "map (\<lambda>kv. length (leafValues (snd kv))) kvs = map (\<lambda>kv. leaves (snd kv)) kvs" by simp
  then show ?case by (simp only: leafValues.simps leaves.simps length_concat map_map comp_def)
qed simp_all

text \<open>
  The diff of a value with itself raises nothing: it only compares a value that is no
  array and no object with itself.
\<close>

lemma diff_self:
  "wfJson v \<Longrightarrow>
     generateSmartJsonDiff v v p = Inr (records (generateSmartJsonDiff v v p))
     \<and> list_all selfRecord (records (generateSmartJsonDiff v v p))
     \<and> map leftValue (records (generateSmartJsonDiff v v p)) = map Some (leafValues v)"
proof (induction v arbitrary: p)
  case (JArr xs)
  let ?f = "\<lambda>i. generateSmartJsonDiff (xs ! i) (xs ! i) (idxPath p i)"
  have ih: "generateSmartJsonDiff (xs ! i) (xs ! i) q = Inr (records (generateSmartJsonDiff (xs ! i) (xs ! i) q))
      \<and> list_all selfRecord (records (generateSmartJsonDiff (xs ! i) (xs ! i) q))
      \<and> map leftValue (records (generateSmartJsonDiff (xs ! i) (xs ! i) q)) = map Some (leafValues (xs ! i))"
    if "i < length xs" for i q
    using JArr.IH [of "xs ! i" q] JArr.prems that by (simp add: list_all_iff)
  have "?f i = Inr (records (?f i))" if "i \<in> set [0..<length xs]" for i
    using ih [of i] that by simp
  then have e: "generateSmartJsonDiff (JArr xs) (JArr xs) p =
      Inr (concat (map (\<lambda>i. records (?f i)) [0..<length xs]))"
    unfolding diff_self_arr by (rule collect_Inr)
  have "map (\<lambda>i. map leftValue (records (?f i))) [0..<length xs]
        = map (\<lambda>i. map Some (leafValues (xs ! i))) [0..<length xs]"
    using ih by simp
  also have "\<dots> = map (\<lambda>x. map Some (leafValues x)) xs"
    by (rule map_nth_upt)
  finally have "map leftValue (records (generateSmartJsonDiff (JArr xs) (JArr xs) p)) =
      map Some (leafValues (JArr xs))"
    by (simp add: e map_concat comp_def)
  moreover have "list_all selfRecord (records (generateSmartJsonDiff (JArr xs) (JArr xs) p))"
    using ih by (auto simp: e list_all_iff)
  ultimately show ?case by (simp add: e)
next
  case (JObj kvs)
  let ?f = "\<lambda>kv. generateSmartJsonDiff (snd kv) (snd kv) (keyPath p (fst kv))"
  have d: "distinct (map fst kvs)" using JObj.prems by simp
  have ih: "generateSmartJsonDiff (snd kv) (snd kv) q = Inr (records (generateSmartJsonDiff (snd kv) (snd kv) q))
      \<and> list_all selfRecord (records (generateSmartJsonDiff (snd kv) (snd kv) q))
      \<and> map leftValue (records (generateSmartJsonDiff (snd kv) (snd kv) q)) = map Some (leafValues (snd kv))"
    if "kv \<in> set kvs" for kv q
    using JObj.IH [of kv "snd kv" q] JObj.prems that by (cases kv) (auto simp: list_all_iff)
  have "?f kv = Inr (records (?f kv))" if "kv \<in> set kvs" for kv
    using ih [of kv] that by simp
  then have e: "generateSmartJsonDiff (JObj kvs) (JObj kvs) p =
      Inr (concat (map (\<lambda>kv. records (?f kv)) kvs))"
    unfolding diff_self_obj [OF d] by (rule collect_Inr)
  have "map leftValue (records (generateSmartJsonDiff (JObj kvs) (JObj kvs) p)) =
      map Some (leafValues (JObj kvs))"
    using ih by (simp add: e map_concat comp_def cong: map_cong)
  moreover have "list_all selfRecord (records (generateSmartJsonDiff (JObj kvs) (JObj kvs) p))"
    using ih by (auto simp: e list_all_iff)
  ultimately show ?case by (simp add: e)
qed (simp_all add: diff_leaf selfRecord_def mkUnchanged_def)

lemma records_self_arr:
  assumes "wfJson (JArr xs)"
  shows "records (generateSmartJsonDiff (JArr xs) (JArr xs) p) =
     concat (map (\<lambda>i. records (generateSmartJsonDiff (xs ! i) (xs ! i) (idxPath p i))) [0..<length xs])"
proof -
  let ?f = "\<lambda>i. generateSmartJsonDiff (xs ! i) (xs ! i) (idxPath p i)"
  have "?f i = Inr (records (?f i))" if "i \<in> set [0..<length xs]" for i
    using diff_self [of "xs ! i" "idxPath p i"] assms that by (simp add: list_all_iff)
  then have "collect (map ?f [0..<length xs]) = Inr (concat (map (\<lambda>i. records (?f i)) [0..<length xs]))"
    by (rule collect_Inr)
  then show ?thesis by (simp add: diff_self_arr)
qed

lemma records_self_obj:
  assumes "wfJson (JObj kvs)"
  shows "records (generateSmartJsonDiff (JObj kvs) (JObj kvs) p) =
     concat (map (\<lambda>kv. records (generateSmartJsonDiff (snd kv) (snd kv) (keyPath p (fst kv)))) kvs)"
proof -
  let ?f = "\<lambda>kv. generateSmartJsonDiff (snd kv) (snd kv) (keyPath p (fst kv))"
  have d: "distinct (map fst kvs)" using assms by simp
  have "?f kv = Inr (records (?f kv))" if "kv \<in> set kvs" for kv
    using diff_self [of "snd kv" "keyPath p (fst kv)"] assms that by (simp add: list_all_iff)
  then have "collect (map ?f kvs) = Inr (concat (map (\<lambda>kv. records (?f kv)) kvs))"
    by (rule collect_Inr)
  then show ?thesis by (simp add: diff_self_obj [OF d])
qed

text \<open>
  Where the diff does not loop (one side is no array and no object, or one is an array
  and the other an object), a record it returns holds the two values at the path, or at
  \<^verbatim>\<open>root\<close> when the path is empty.
\<close>

lemma diff_single:
  assumes "\<not> isObject a \<or> \<not> isObject b \<or> isArray a \<noteq> isArray b"
    and "d \<in> set (records (generateSmartJsonDiff a b p))"
  shows "path d = orRoot p \<and> leftValue d = Some a \<and> rightValue d = Some b"
  using assms
  by (subst (asm) generateSmartJsonDiff.simps)
     (auto simp: mkChanged_def mkUnchanged_def split: sum.splits if_splits)

lemma swapRecord_mk [simp]:
  "swapRecord (mkAdded q x) = mkRemoved q x"
  "swapRecord (mkRemoved q x) = mkAdded q x"
  "swapRecord (mkChanged q u w) = mkChanged q w u"
  "swapRecord (mkUnchanged q u w) = mkUnchanged q w u"
  by (simp_all add: swapRecord_def mkAdded_def mkRemoved_def mkChanged_def mkUnchanged_def)

lemma swapRecord_invol [simp]: "swapRecord (swapRecord d) = d"
  by (cases d) (simp add: swapRecord_def split: diffType.splits)

lemma swapRecord_mem: "d \<in> swapRecord ` S \<longleftrightarrow> swapRecord d \<in> S"
proof
  assume "d \<in> swapRecord ` S"
  then show "swapRecord d \<in> S" by auto
next
  assume "swapRecord d \<in> S"
  then have "swapRecord (swapRecord d) \<in> swapRecord ` S" by (rule imageI)
  then show "d \<in> swapRecord ` S" by simp
qed

text \<open>
  Exchanging the two sides: the diff raises in one direction exactly when it raises in
  the other, and the records of one direction are those of the other read from the other
  side.
\<close>

lemma swapped_leaf:
  "\<not> isObject a \<or> \<not> isObject b \<Longrightarrow>
     swapped (generateSmartJsonDiff b a p) (generateSmartJsonDiff a b p)"
  using isEqual_leaf_sym [of a b]
  by (cases "isEqual a b") (auto simp: swapped_def diff_leaf)

lemma arrStep_swap:
  assumes "\<And>i q b. i < length xs \<Longrightarrow>
      swapped (generateSmartJsonDiff b (xs ! i) q) (generateSmartJsonDiff (xs ! i) b q)"
    and "i < max (length xs) (length ys)"
  shows "swapped (arrStep ys xs p i) (arrStep xs ys p i)"
  using assms by (auto simp: arrStep_def swapped_def)

lemma objStep_swap:
  assumes "\<And>k a q b. map_of l k = Some a \<Longrightarrow>
      swapped (generateSmartJsonDiff b a q) (generateSmartJsonDiff a b q)"
  shows "swapped (objStep r l p k) (objStep l r p k)"
  using assms by (auto simp: objStep_def swapped_def split: option.splits)

lemma diff_swap: "swapped (generateSmartJsonDiff b a p) (generateSmartJsonDiff a b p)"
proof (induction a arbitrary: b p)
  case (JArr xs)
  show ?case
  proof (cases b)
    case (JArr ys)
    have ih: "swapped (generateSmartJsonDiff c (xs ! i) q) (generateSmartJsonDiff (xs ! i) c q)"
      if "i < length xs" for i q c
      using JArr.IH [of "xs ! i" c q] that by simp
    have "swapped (arrStep ys xs p i) (arrStep xs ys p i)"
      if "i < max (length xs) (length ys)" for i
      using arrStep_swap [of xs _ ys] ih that by blast
    then have "isl (arrStep ys xs p i) = isl (arrStep xs ys p i) \<and>
        set (records (arrStep ys xs p i)) = swapRecord ` set (records (arrStep xs ys p i))"
      if "i \<in> set [0..<max (length xs) (length ys)]" for i
      using that by (simp add: swapped_def)
    then show ?thesis
      unfolding JArr diff_arr swapped_def max.commute [of "length ys"]
      by (intro collect_image) simp_all
  qed (simp_all add: swapped_leaf, simp add: swapped_def diff_arr_obj diff_obj_arr)
next
  case (JObj l)
  show ?case
  proof (cases b)
    case (JObj r)
    have ih: "swapped (generateSmartJsonDiff c a q) (generateSmartJsonDiff a c q)"
      if "map_of l k = Some a" for k a q c
    proof -
      from that have "(k, a) \<in> set l" by (rule map_of_SomeD)
      then show ?thesis using JObj.IH [of "(k, a)" a c q] by simp
    qed
    have "swapped (objStep r l p k) (objStep l r p k)" for k
      using objStep_swap [of l] ih by blast
    then have "isl (objStep r l p k) = isl (objStep l r p k) \<and>
        set (records (objStep r l p k)) = swapRecord ` set (records (objStep l r p k))" for k
      by (simp add: swapped_def)
    then show ?thesis
      unfolding JObj diff_obj swapped_def
      by (intro collect_image) (simp_all add: Un_commute)
  qed (simp_all add: swapped_leaf, simp add: swapped_def diff_arr_obj diff_obj_arr)
qed (simp_all add: swapped_leaf)

lemma diff_sym_raise:
  "isl (generateSmartJsonDiff a b p) \<longleftrightarrow> isl (generateSmartJsonDiff b a p)"
  using diff_swap [of b a p] by (simp add: swapped_def)

lemma diff_sym_added:
  "mkAdded q x \<in> set (records (generateSmartJsonDiff a b p)) \<longleftrightarrow>
   mkRemoved q x \<in> set (records (generateSmartJsonDiff b a p))"
  using diff_swap [of b a p] by (simp add: swapped_def swapRecord_mem)

lemma diff_sym_changed:
  "mkChanged q u w \<in> set (records (generateSmartJsonDiff a b p)) \<longleftrightarrow>
   mkChanged q w u \<in> set (records (generateSmartJsonDiff b a p))"
  using diff_swap [of b a p] by (simp add: swapped_def swapRecord_mem)

text \<open>
  C1 (the code at an input where the claim fails). The left document \<^verbatim>\<open>[1]\<close> and the
  right document \<^verbatim>\<open>[{"__wrapped__":0},2]\<close> are arrays, so the claim gives the diff of
  the two elements at index 0 and then an Added record holding 2 at \<^verbatim>\<open>[1]\<close>, which is
  what the iteration for index 1 would append. The code never gets there: at index 0 it
  compares 1 with the object by \<^verbatim>\<open>_.isEqual\<close>, which takes an object with the own key
  \<^verbatim>\<open>__wrapped__\<close> for a wrapper, calls its \<^verbatim>\<open>value\<close> method and raises a TypeError.
  The exception leaves the loop, the diff has no result, and \<open>diffResult\<close> catches it and
  returns no records at all.
\<close>

theorem diff_raises_on_wrapped_key:
  \<open>generateSmartJsonDiff (JArr [JNum (1::int)])
      (JArr [JObj [(''__wrapped__'', JNum 0)], JNum 2]) [] = Inl TypeError
   \<and> diffResult
      (\<lambda>s. if s = ''[1]'' then Some (JArr [JNum (1::int)])
           else if s = ''[{"__wrapped__":0},2]''
             then Some (JArr [JObj [(''__wrapped__'', JNum 0)], JNum 2])
           else None)
      ''[1]'' ''[{"__wrapped__":0},2]'' = []
   \<and> arrStep [JNum (1::int)] [JObj [(''__wrapped__'', JNum 0)], JNum 2] [] 1 =
      Inr [\<lparr>path = ''[1]'', type = Added, leftValue = None, rightValue = Some (JNum 2)\<rparr>]\<close>
proof -
  have "generateSmartJsonDiff (JArr [JNum (1::int)])
      (JArr [JObj [(''__wrapped__'', JNum 0)], JNum 2]) [] = Inl TypeError"
    by (simp add: diff_eqs arrStep_def upt_rec hasWrapped_def)
  then show ?thesis
    by (simp add: diffResult_def trim_def isSpace_def arrStep_def mkAdded_def idxPath_def
        showNat.simps digitChar_def)
qed

theorem diff_raises_on_wrapped_key_witness:
  \<open>isl (generateSmartJsonDiff (JArr [JNum (1::int)])
      (JArr [JObj [(''__wrapped__'', JNum 0)], JNum 2]) [])
   \<and> records (generateSmartJsonDiff (JArr [JNum (1::int)])
      (JArr [JObj [(''__wrapped__'', JNum 0)], JNum 2]) []) = []\<close>
  using diff_raises_on_wrapped_key by simp

text \<open>
  C2 (as the code has it). On the two documents of the scenario the diff returns three
  records, the one for \<open>a\<close> first: the keys are visited in the order of the left document,
  \<open>a\<close> before \<open>b\<close>.
\<close>

theorem diff_scenario_order:
  "generateSmartJsonDiff
     (JObj [(''a'', JNum (1::int)), (''b'', JObj [(''c'', JNum 2)])])
     (JObj [(''a'', JNum 1), (''b'', JObj [(''c'', JNum 3), (''d'', JNum 4)])]) [] =
   Inr
   [\<lparr>path = ''a'', type = Unchanged, leftValue = Some (JNum 1), rightValue = Some (JNum 1)\<rparr>,
    \<lparr>path = ''b.c'', type = Changed, leftValue = Some (JNum 2), rightValue = Some (JNum 3)\<rparr>,
    \<lparr>path = ''b.d'', type = Added, leftValue = None, rightValue = Some (JNum 4)\<rparr>]"
  by (simp add: diff_eqs objStep_def uniq_def keyPath_def orRoot_def
      mkUnchanged_def mkChanged_def mkAdded_def)

theorem diff_scenario_order_witness:
  "map path (records (generateSmartJsonDiff
     (JObj [(''a'', JNum (1::int)), (''b'', JObj [(''c'', JNum 2)])])
     (JObj [(''a'', JNum 1), (''b'', JObj [(''c'', JNum 3), (''d'', JNum 4)])]) [])) =
   [''a'', ''b.c'', ''b.d'']"
  using diff_scenario_order by simp

text \<open>
  C2 as stated fails: the list that starts with the record for \<open>b.c\<close> and ends with the
  record for \<open>a\<close> is not what the diff returns.
\<close>

theorem diff_scenario_stated_order_counterexample:
  "generateSmartJsonDiff
     (JObj [(''a'', JNum (1::int)), (''b'', JObj [(''c'', JNum 2)])])
     (JObj [(''a'', JNum 1), (''b'', JObj [(''c'', JNum 3), (''d'', JNum 4)])]) [] \<noteq>
   Inr
   [\<lparr>path = ''b.c'', type = Changed, leftValue = Some (JNum 2), rightValue = Some (JNum 3)\<rparr>,
    \<lparr>path = ''b.d'', type = Added, leftValue = None, rightValue = Some (JNum 4)\<rparr>,
    \<lparr>path = ''a'', type = Unchanged, leftValue = Some (JNum 1), rightValue = Some (JNum 1)\<rparr>]"
  by (simp add: diff_eqs objStep_def uniq_def keyPath_def orRoot_def
      mkUnchanged_def mkChanged_def mkAdded_def)

text \<open>
  C6. The diff of a parsed value with itself returns (it raises nothing) and holds
  Unchanged records only, one for each leaf of the value in document order and no other:
  the records' values are the leaves of the value, each on both sides, and their number
  is the number of leaves.
\<close>

theorem diff_reflexive:
  "wfJson v \<Longrightarrow>
     (\<exists>ds. generateSmartJsonDiff v v p = Inr ds
       \<and> (\<forall>d \<in> set ds. type d = Unchanged \<and> rightValue d = leftValue d)
       \<and> map leftValue ds = map Some (leafValues v)
       \<and> list_all (\<lambda>x. \<not> isObject x) (leafValues v)
       \<and> length ds = leaves v)"
proof -
  assume w: "wfJson v"
  let ?ds = "records (generateSmartJsonDiff v v p)"
  have "length ?ds = length (map leftValue ?ds)"
    by simp
  also have "\<dots> = leaves v"
    using diff_self [OF w, of p] by (simp add: length_leafValues)
  finally have "length ?ds = leaves v" .
  moreover have "list_all (\<lambda>x. \<not> isObject x) (leafValues v)"
    by (induction v) (auto simp: list_all_iff)
  moreover have "\<forall>d \<in> set ?ds. type d = Unchanged \<and> rightValue d = leftValue d"
    using diff_self [OF w, of p] by (auto simp: list_all_iff selfRecord_def)
  ultimately show ?thesis
    using diff_self [OF w, of p] by blast
qed

theorem diff_reflexive_witness:
  "wfJson (JObj [(''a'', JNum (1::int)), (''b'', JArr [JNull, JObj []])])
   \<and> map type (records (generateSmartJsonDiff (JObj [(''a'', JNum (1::int)), (''b'', JArr [JNull, JObj []])])
        (JObj [(''a'', JNum 1), (''b'', JArr [JNull, JObj []])]) [])) = [Unchanged, Unchanged]
   \<and> leaves (JObj [(''a'', JNum (1::int)), (''b'', JArr [JNull, JObj []])]) = 2"
proof -
  have w: "wfJson (JObj [(''a'', JNum (1::int)), (''b'', JArr [JNull, JObj []])])" by simp
  have "map type (records (generateSmartJsonDiff (JObj [(''a'', JNum (1::int)), (''b'', JArr [JNull, JObj []])])
        (JObj [(''a'', JNum 1), (''b'', JArr [JNull, JObj []])]) [])) = [Unchanged, Unchanged]"
    using diff_reflexive [OF w, of "[]"]
    by (simp add: diff_eqs objStep_def arrStep_def uniq_def mkUnchanged_def upt_rec)
  with w show ?thesis by simp
qed

text \<open>
  C7. The diff of \<open>a\<close> against \<open>b\<close> raises exactly when the diff of \<open>b\<close> against \<open>a\<close>
  raises. Its records (none when it raises) hold an Added record at a path with a value
  exactly when the records of the diff of \<open>b\<close> against \<open>a\<close> hold a Removed record at that
  path with that value, and a Changed record at a path exactly when the other diff holds
  the Changed record at that path with before and after exchanged.
\<close>

theorem diff_symmetric_classification:
  "(isl (generateSmartJsonDiff a b p) \<longleftrightarrow> isl (generateSmartJsonDiff b a p))
   \<and> (\<lparr>path = q, type = Added, leftValue = None, rightValue = Some x\<rparr>
      \<in> set (records (generateSmartJsonDiff a b p)) \<longleftrightarrow>
    \<lparr>path = q, type = Removed, leftValue = Some x, rightValue = None\<rparr>
      \<in> set (records (generateSmartJsonDiff b a p)))
   \<and> (\<lparr>path = q, type = Changed, leftValue = Some u, rightValue = Some w\<rparr>
      \<in> set (records (generateSmartJsonDiff a b p)) \<longleftrightarrow>
    \<lparr>path = q, type = Changed, leftValue = Some w, rightValue = Some u\<rparr>
      \<in> set (records (generateSmartJsonDiff b a p)))"
  using diff_sym_raise [of a b p] diff_sym_added [of q x a b p] diff_sym_changed [of q u w a b p]
  by (simp only: mkAdded_def mkRemoved_def mkChanged_def)

theorem diff_symmetric_classification_witness:
  "\<lparr>path = ''[1]'', type = Added, leftValue = None, rightValue = Some (JNum (2::int))\<rparr>
      \<in> set (records (generateSmartJsonDiff (JArr [JNum 1]) (JArr [JNum 1, JNum 2]) []))
   \<and> \<lparr>path = ''[1]'', type = Removed, leftValue = Some (JNum (2::int)), rightValue = None\<rparr>
      \<in> set (records (generateSmartJsonDiff (JArr [JNum 1, JNum 2]) (JArr [JNum 1]) []))"
proof -
  have "\<lparr>path = ''[1]'', type = Added, leftValue = None, rightValue = Some (JNum (2::int))\<rparr>
      \<in> set (records (generateSmartJsonDiff (JArr [JNum 1]) (JArr [JNum 1, JNum 2]) []))"
    by (simp add: diff_eqs arrStep_def mkAdded_def upt_rec idxPath_def showNat.simps digitChar_def)
  then show ?thesis
    using diff_symmetric_classification
      [of "JArr [JNum (1::int)]" "JArr [JNum 1, JNum 2]" "[]" "''[1]''" "JNum 2"]
    by simp
qed

section \<open>Properties of the input handling\<close>

lemma trim_Nil_iff: "trim s = [] \<longleftrightarrow> list_all isSpace s"
proof (cases "dropWhile isSpace s = []")
  case True
  then have "list_all isSpace s" by (simp add: list_all_iff)
  moreover have "trim s = []" unfolding trim_def True by simp
  ultimately show ?thesis by simp
next
  case False
  then have n: "\<not> isSpace (hd (dropWhile isSpace s))" by (rule hd_dropWhile)
  have h: "hd (dropWhile isSpace s) \<in> set (dropWhile isSpace s)" using False by simp
  then have "hd (dropWhile isSpace s) \<in> set s" by (rule set_dropWhileD)
  with n have "\<not> list_all isSpace s" by (auto simp: list_all_iff)
  moreover have "trim s \<noteq> []"
  proof
    assume "trim s = []"
    then have "\<forall>x \<in> set (dropWhile isSpace s). isSpace x"
      by (simp add: trim_def)
    with h n show False by blast
  qed
  ultimately show ?thesis by simp
qed

text \<open>
  C9. An input that is empty or consists of white space only is valid and formats to the
  empty output. An input with other characters that \<^verbatim>\<open>JSON.parse\<close> rejects is not
  valid, formats to the empty output (no call of \<^verbatim>\<open>JSON.stringify\<close> is made), and
  gives no diff records on either side of a comparison.
\<close>

theorem empty_input_valid_malformed_rejected:
  "(list_all isSpace s \<longrightarrow>
      isValidJson parse s \<and> formattedJson parse stringify s indentSize sortKeys compactMode = [])
   \<and> (\<not> list_all isSpace s \<and> parse s = None \<longrightarrow>
      \<not> isValidJson parse s
      \<and> stringifyCall parse s indentSize sortKeys compactMode = None
      \<and> formattedJson parse stringify s indentSize sortKeys compactMode = []
      \<and> diffResult parse s other = [] \<and> diffResult parse other s = [])"
  by (auto simp: isValidJson_def formattedJson_def stringifyCall_def diffResult_def trim_Nil_iff
           split: option.splits sum.splits)

theorem empty_input_valid_malformed_rejected_witness:
  "list_all isSpace '' '' \<and> isValidJson (\<lambda>s. None :: int json option) '' ''
   \<and> formattedJson (\<lambda>s. None :: int json option) (\<lambda>v i. ''x'') '' '' 2 False False = []
   \<and> \<not> list_all isSpace ''{a:1}'' \<and> \<not> isValidJson (\<lambda>s. None :: int json option) ''{a:1}''
   \<and> diffResult (\<lambda>s. None :: int json option) ''{a:1}'' ''{}'' = []"
  using empty_input_valid_malformed_rejected [of "'' ''" "\<lambda>s. None :: int json option" "\<lambda>v i. ''x''" 2 False False "''{}''"]
    empty_input_valid_malformed_rejected [of "''{a:1}''" "\<lambda>s. None :: int json option" "\<lambda>v i. ''x''" 2 False False "''{}''"]
  by (simp add: isSpace_def)


section \<open>Properties of the tree view\<close>

lemma concat_map_singleton_cong:
  "(\<And>x. x \<in> set xs \<Longrightarrow> g x = [f x]) \<Longrightarrow> concat (map g xs) = map f xs"
  by (induction xs) simp_all

lemma nodes_arr:
  "parseJsonToNodes E ns (JArr xs) p l =
     \<lparr>key = ''Array('' @ showNat (length xs) @ '')'', value = JArr xs, type = TArray,
       path = p, level = l, isExpanded = (p \<in> E), hasChildren = (length xs > 0), isVisible = True\<rparr> #
     (if p \<in> E then concat (map (\<lambda>ix. parseJsonToNodes E ns (snd ix) (idxPath p (fst ix)) (Suc l))
        (enumerate 0 xs)) else [])"
  by (simp add: foldl_append_concat [where g = "\<lambda>ix. parseJsonToNodes E ns (snd ix) (idxPath p (fst ix)) (Suc l)"])

lemma nodes_obj:
  "parseJsonToNodes E ns (JObj kvs) p l =
     \<lparr>key = ''Object{'' @ showNat (length kvs) @ ''}'', value = JObj kvs, type = TObject,
       path = p, level = l, isExpanded = (p \<in> E), hasChildren = (length kvs > 0), isVisible = True\<rparr> #
     (if p \<in> E then concat (map (\<lambda>k. case map_of kvs k of
           Some child \<Rightarrow> parseJsonToNodes E ns child (keyPath p k) (Suc l) | None \<Rightarrow> [])
        (map fst kvs)) else [])"
  by (simp add: Let_def foldl_append_concat [where g = "\<lambda>k. case map_of kvs k of
           Some child \<Rightarrow> parseJsonToNodes E ns child (keyPath p k) (Suc l) | None \<Rightarrow> []"]
       split: option.splits)

declare parseJsonToNodes.simps(5,6) [simp del]

lemma nodes_obj_wf:
  assumes "distinct (map fst kvs)"
  shows "parseJsonToNodes E ns (JObj kvs) p l =
     \<lparr>key = ''Object{'' @ showNat (length kvs) @ ''}'', value = JObj kvs, type = TObject,
       path = p, level = l, isExpanded = (p \<in> E), hasChildren = (length kvs > 0), isVisible = True\<rparr> #
     (if p \<in> E then concat (map (\<lambda>kv. parseJsonToNodes E ns (snd kv) (keyPath p (fst kv)) (Suc l)) kvs)
      else [])"
proof -
  have "map (\<lambda>k. case map_of kvs k of
           Some child \<Rightarrow> parseJsonToNodes E ns child (keyPath p k) (Suc l) | None \<Rightarrow> [])
        (map fst kvs) =
      map (\<lambda>kv. parseJsonToNodes E ns (snd kv) (keyPath p (fst kv)) (Suc l)) kvs"
    by (simp add: map_of_distinct_fst [OF assms])
  then show ?thesis by (simp only: nodes_obj)
qed

lemma nodes_head:
  "\<exists>r rest. parseJsonToNodes E ns v p l = r # rest \<and> JsonNode.path r = p \<and> level r = l \<and> value r = v
     \<and> isExpanded r = (isObject v \<and> p \<in> E)"
  by (cases v) (simp_all add: nodes_arr nodes_obj)

lemma nodes_collapsed:
  "\<not> (isObject v \<and> p \<in> E) \<Longrightarrow>
   \<exists>r. parseJsonToNodes E ns v p l = [r] \<and> JsonNode.path r = p \<and> level r = l \<and> value r = v
     \<and> \<not> isExpanded r"
  by (cases v) (auto simp add: nodes_arr nodes_obj)

lemma rootRow_props:
  "JsonNode.path (rootRow E ns v p l) = p \<and> level (rootRow E ns v p l) = l
   \<and> value (rootRow E ns v p l) = v \<and> isExpanded (rootRow E ns v p l) = (isObject v \<and> p \<in> E)"
  using nodes_head [of E ns v p l] by (auto simp: rootRow_def)

lemma nodes_collapsed_row:
  "\<not> (isObject v \<and> p \<in> E) \<Longrightarrow> parseJsonToNodes E ns v p l = [rootRow E ns v p l]"
  using nodes_collapsed [of v p E ns l] by (auto simp: rootRow_def)

lemma nodes_root_cons:
  "parseJsonToNodes E ns v p l = rootRow E ns v p l # tl (parseJsonToNodes E ns v p l)"
  using nodes_head [of E ns v p l] by (auto simp: rootRow_def)

lemma idxPath_not_Nil [simp]: "idxPath p i \<noteq> []"
  by (simp add: idxPath_def)

lemma default_rows_arr:
  "tl (parseJsonToNodes {[]} ns (JArr xs) [] 0) =
     map (\<lambda>ix. rootRow {[]} ns (snd ix) (idxPath [] (fst ix)) (Suc 0)) (enumerate 0 xs)"
proof -
  have "concat (map (\<lambda>ix. parseJsonToNodes {[]} ns (snd ix) (idxPath [] (fst ix)) (Suc 0)) (enumerate 0 xs))
      = map (\<lambda>ix. rootRow {[]} ns (snd ix) (idxPath [] (fst ix)) (Suc 0)) (enumerate 0 xs)"
    by (rule concat_map_singleton_cong) (simp add: nodes_collapsed_row)
  then show ?thesis by (simp add: nodes_arr)
qed

lemma default_rows_obj:
  assumes "distinct (map fst kvs)" "\<not> emptyKeyContainer (JObj kvs)"
  shows "tl (parseJsonToNodes {[]} ns (JObj kvs) [] 0) =
     map (\<lambda>kv. rootRow {[]} ns (snd kv) (keyPath [] (fst kv)) (Suc 0)) kvs"
proof -
  have "concat (map (\<lambda>kv. parseJsonToNodes {[]} ns (snd kv) (keyPath [] (fst kv)) (Suc 0)) kvs)
      = map (\<lambda>kv. rootRow {[]} ns (snd kv) (keyPath [] (fst kv)) (Suc 0)) kvs"
  proof (rule concat_map_singleton_cong)
    fix kv assume "kv \<in> set kvs"
    then have "\<not> (isObject (snd kv) \<and> keyPath [] (fst kv) \<in> {[]})"
      using assms(2) by (auto simp: keyPath_def list_ex_iff)
    then show "parseJsonToNodes {[]} ns (snd kv) (keyPath [] (fst kv)) (Suc 0) =
        [rootRow {[]} ns (snd kv) (keyPath [] (fst kv)) (Suc 0)]"
      by (rule nodes_collapsed_row)
  qed
  then show ?thesis by (simp add: nodes_obj_wf [OF assms(1)])
qed

lemma default_rows:
  assumes "isObject v" "wfJson v" "\<not> emptyKeyContainer v"
  shows "map value (tl (parseJsonToNodes {[]} ns v [] 0)) = children v
     \<and> list_all (\<lambda>r. \<not> isExpanded r \<and> level r = 1) (tl (parseJsonToNodes {[]} ns v [] 0))"
proof (cases v)
  case (JArr xs)
  show ?thesis
    unfolding JArr default_rows_arr
    by (simp add: rootRow_props list_all_iff comp_def)
next
  case (JObj kvs)
  have d: "distinct (map fst kvs)" using assms(2) JObj by simp
  have e: "\<not> emptyKeyContainer (JObj kvs)" using assms(3) JObj by simp
  have "\<not> (isObject (snd kv) \<and> keyPath [] (fst kv) \<in> {[]})" if "kv \<in> set kvs" for kv
    using e that by (auto simp: keyPath_def list_ex_iff)
  then show ?thesis
    unfolding JObj default_rows_obj [OF d e]
    by (simp add: rootRow_props list_all_iff comp_def)
qed (use assms in simp_all)

lemma onChange_parsed:
  "trim t \<noteq> [] \<Longrightarrow> parse t = Some v \<Longrightarrow>
   parsedJson (onChange parse t st) = v \<and>
   expandedPaths (onChange parse t st) =
     (if depChanged (parsedJson st) v \<and> v \<noteq> JNull then {[]} else expandedPaths st)"
  by (simp add: onChange_def handleJsonInput_def parsedJsonEffect_def)

text \<open>
  C4 (the code at the inputs where the claim fails). After the successful parse of a
  document that is falsy in JavaScript (\<^verbatim>\<open>null\<close>, \<^verbatim>\<open>false\<close>, \<^verbatim>\<open>0\<close>, \<^verbatim>\<open>""\<close>),
  the row list is empty: \<^verbatim>\<open>if (!parsedJson) return []\<close> takes the document for no
  document, although \<open>parseJsonToNodes\<close> gives every value its root row (\<open>nodes_head\<close>).
\<close>

theorem nodes_empty_for_falsy_document:
  "trim t \<noteq> [] \<Longrightarrow> parse t = Some v \<Longrightarrow> \<not> truthy v \<Longrightarrow> nodes numStr (onChange parse t st) = []"
  by (simp add: nodes_def onChange_parsed)

theorem nodes_empty_for_falsy_document_witness:
  "trim ''0'' \<noteq> [] \<and> \<not> truthy (JNum (0::int))
   \<and> nodes (\<lambda>n. ''0'') (onChange (\<lambda>s. if s = ''0'' then Some (JNum (0::int)) else None) ''0'' initialViewer) = []"
  using nodes_empty_for_falsy_document [of "''0''" "\<lambda>s. if s = ''0'' then Some (JNum (0::int)) else None" "JNum 0" "\<lambda>n. ''0''" initialViewer]
  by (simp add: trim_def isSpace_def)

text \<open>
  C10 (as the code has it). After a successful parse whose result is not \<^verbatim>\<open>null\<close> and
  is a new value for the state (an array, an object, or a value other than the current
  one), and after collapse-all, the expanded paths are exactly the root path. For an
  array or object document in that state none of whose immediate children is an array or
  object under the empty key, the rows are the root row, marked expanded, followed by one
  collapsed row of level 1 for each immediate child in order, and nothing else.
\<close>

theorem default_expansion_shows_children_collapsed:
  "(trim t \<noteq> [] \<and> parse t = Some v \<and> v \<noteq> JNull \<and> depChanged (parsedJson st) v \<longrightarrow>
      parsedJson (onChange parse t st) = v \<and> expandedPaths (onChange parse t st) = {[]})
   \<and> expandedPaths (collapseAll st) = {[]}
   \<and> (isObject (parsedJson st) \<and> wfJson (parsedJson st) \<and> \<not> emptyKeyContainer (parsedJson st)
        \<and> expandedPaths st = {[]} \<longrightarrow>
      (\<exists>root rows. nodes numStr st = root # rows
         \<and> JsonNode.path root = [] \<and> level root = 0 \<and> value root = parsedJson st \<and> isExpanded root
         \<and> map value rows = children (parsedJson st)
         \<and> list_all (\<lambda>r. \<not> isExpanded r \<and> level r = 1) rows))"
proof (intro conjI impI)
  assume a: "isObject (parsedJson st) \<and> wfJson (parsedJson st) \<and> \<not> emptyKeyContainer (parsedJson st)
        \<and> expandedPaths st = {[]}"
  then have t: "truthy (parsedJson st)" by (cases "parsedJson st") simp_all
  have r: "parseJsonToNodes {[]} numStr (parsedJson st) [] 0 =
      rootRow {[]} numStr (parsedJson st) [] 0 # tl (parseJsonToNodes {[]} numStr (parsedJson st) [] 0)"
    by (rule nodes_root_cons)
  have "nodes numStr st = rootRow {[]} numStr (parsedJson st) [] 0 #
      tl (parseJsonToNodes {[]} numStr (parsedJson st) [] 0)"
    using a t r by (simp add: nodes_def)
  moreover have "map value (tl (parseJsonToNodes {[]} numStr (parsedJson st) [] 0)) = children (parsedJson st)
     \<and> list_all (\<lambda>r. \<not> isExpanded r \<and> level r = 1) (tl (parseJsonToNodes {[]} numStr (parsedJson st) [] 0))"
    using a by (intro default_rows) simp_all
  ultimately show "\<exists>root rows. nodes numStr st = root # rows
         \<and> JsonNode.path root = [] \<and> level root = 0 \<and> value root = parsedJson st \<and> isExpanded root
         \<and> map value rows = children (parsedJson st)
         \<and> list_all (\<lambda>r. \<not> isExpanded r \<and> level r = 1) rows"
    using a by (simp add: rootRow_props)
qed (simp_all add: onChange_parsed collapseAll_def)

text \<open>
  C10 as stated fails twice. Parsing the document \<^verbatim>\<open>null\<close> in the initial state leaves
  the expanded paths empty. And for the document \<^verbatim>\<open>{"": [1]}\<close> with only the root path
  expanded, the child under the empty key has the root's path, so its row is marked
  expanded too and a deeper row follows.
\<close>

theorem default_expansion_stated_counterexample:
  "expandedPaths (onChange (\<lambda>s. if s = ''null'' then Some JNull else None) ''null''
      (initialViewer :: int viewer)) \<noteq> {[]}
   \<and> map isExpanded (parseJsonToNodes {[]} (\<lambda>n. ''1'') (JObj [([], JArr [JNum (1::int)])]) [] 0)
      = [True, True, False]"
  by (simp add: onChange_def handleJsonInput_def parsedJsonEffect_def initialViewer_def trim_def
      isSpace_def keyPath_def idxPath_def parseJsonToNodes.simps(5,6))

theorem default_expansion_shows_children_collapsed_witness:
  "trim ''[7]'' \<noteq> [] \<and> isObject (JArr [JNum (7::int)]) \<and> wfJson (JArr [JNum (7::int)])
   \<and> \<not> emptyKeyContainer (JArr [JNum (7::int)])
   \<and> expandedPaths (onChange (\<lambda>s. if s = ''[7]'' then Some (JArr [JNum (7::int)]) else None)
        ''[7]'' initialViewer) = {[]}
   \<and> length (nodes (\<lambda>n. ''7'')
        (onChange (\<lambda>s. if s = ''[7]'' then Some (JArr [JNum (7::int)]) else None)
          ''[7]'' initialViewer)) = 2"
proof -
  let ?parse = "\<lambda>s. if s = ''[7]'' then Some (JArr [JNum (7::int)]) else None"
  let ?st = "onChange ?parse ''[7]'' initialViewer"
  have t: "trim ''[7]'' \<noteq> []" by (simp add: trim_def isSpace_def)
  have a: "parsedJson ?st = JArr [JNum 7] \<and> expandedPaths ?st = {[]}"
    using default_expansion_shows_children_collapsed [of "''[7]''" ?parse "JArr [JNum 7]" initialViewer "\<lambda>n. ''7''"] t
    by (simp add: depChanged_def)
  obtain root rows where "nodes (\<lambda>n. ''7'') ?st = root # rows"
    "map value rows = children (parsedJson ?st)"
    using default_expansion_shows_children_collapsed [of "''[7]''" ?parse "JArr [JNum 7]" ?st "\<lambda>n. ''7''"] a by auto
  then have "nodes (\<lambda>n. ''7'') ?st = root # rows" "length (map value rows) = 1"
    using a by simp_all
  then have "length (nodes (\<lambda>n. ''7'') ?st) = 2"
    by simp
  with t a show ?thesis by simp
qed


section \<open>Properties of the formatter\<close>

lemma sortObjectKeys_obj:
  "sortObjectKeys (JObj kvs) = JObj (foldl (sortStep kvs) [] (sort (map fst kvs)))"
proof -
  have "(\<lambda>sortedObj k. case map_of kvs k of Some v \<Rightarrow> objSet sortedObj k (sortObjectKeys v)
          | None \<Rightarrow> sortedObj) = sortStep kvs"
    by (intro ext) (simp add: sortStep_def)
  then show ?thesis by simp
qed

declare sortObjectKeys.simps(2) [simp del]



















text \<open>
  C5 (the code at an input where the claim fails). With key sorting on and compact mode
  off, the document \<^verbatim>\<open>{"__proto__":1}\<close> is serialised as the empty object: the
  assignment \<^verbatim>\<open>sortedObj[key] = ...\<close> with the key \<^verbatim>\<open>__proto__\<close> creates no property.
  The empty object is not deeply equal to the document, so parsing the formatted text
  cannot give the value back.
\<close>

theorem sort_keys_drops_proto_key:
  \<open>stringifyCall
      (\<lambda>s. if s = ''{"__proto__":1}'' then Some (JObj [(''__proto__'', JNum (1::int))]) else None)
      ''{"__proto__":1}'' 2 True False = Some (JObj [], Some 2)
   \<and> isEqual (JObj []) (JObj [(''__proto__'', JNum (1::int))]) = Inr False\<close>
  by (simp add: stringifyCall_def trim_def isSpace_def sortObjectKeys_obj sortStep_def objSet_def
      hasWrapped_def)

theorem sort_keys_drops_proto_key_witness:
  \<open>formattedJson
      (\<lambda>s. if s = ''{"__proto__":1}'' then Some (JObj [(''__proto__'', JNum (1::int))]) else None)
      (\<lambda>v indent. if v = JObj [] then ''{}'' else ''...'')
      ''{"__proto__":1}'' 2 True False = ''{}''\<close>
  using sort_keys_drops_proto_key by (simp add: formattedJson_def)


section \<open>Properties of the path strings\<close>

lemma digit_cases: "d < 10 \<Longrightarrow> d = 0 \<or> d = 1 \<or> d = 2 \<or> d = 3 \<or> d = 4 \<or> d = 5 \<or> d = 6 \<or> d = 7 \<or> d = 8 \<or> d = (9::nat)"
  by arith

lemma digitVal_digitChar:
  assumes "d < 10"
  shows "digitVal (digitChar d) = d"
  using digit_cases [OF assms] by (elim disjE) (simp_all add: digitVal_def digitChar_def)

lemma digitChar_plain:
  assumes "d < 10"
  shows "\<not> special (digitChar d)"
  using digit_cases [OF assms] by (elim disjE) (simp_all add: special_def digitChar_def)

lemma readNat_snoc: "readNat (s @ [c]) = 10 * readNat s + digitVal c"
  by (simp add: readNat_def)

lemma readNat_showNat: "readNat (showNat n) = n"
proof (induction n rule: showNat.induct)
  case (1 n)
  show ?case
  proof (cases "n < 10")
    case True
    then show ?thesis
      using readNat_snoc [of "[]" "digitChar n"]
      by (simp add: showNat.simps [of n] digitVal_digitChar readNat_def)
  next
    case False
    then show ?thesis
      using 1 by (simp add: showNat.simps [of n] readNat_snoc digitVal_digitChar)
  qed
qed

lemma showNat_inj: "showNat i = showNat j \<Longrightarrow> i = j"
  by (metis readNat_showNat)

lemma plain_showNat: "plain (showNat n)"
proof (induction n rule: showNat.induct)
  case (1 n)
  show ?case
  proof (cases "n < 10")
    case True
    then show ?thesis by (simp add: showNat.simps [of n] plain_def digitChar_plain)
  next
    case False
    then show ?thesis
      using 1 by (simp add: showNat.simps [of n] plain_def digitChar_plain)
  qed
qed

lemma takeWhile_plain:
  assumes "plain b" "tailOk t"
  shows "takeWhile (\<lambda>c. \<not> special c) (b @ t) = b"
proof -
  have "takeWhile (\<lambda>c. \<not> special c) t = []"
    using assms(2) by (cases t) (auto simp: tailOk_def)
  moreover have "takeWhile (\<lambda>c. \<not> special c) (b @ t) = b @ takeWhile (\<lambda>c. \<not> special c) t"
    using assms(1) by (intro takeWhile_append2) (simp add: plain_def list_all_iff)
  ultimately show ?thesis by simp
qed

lemma body_unique:
  assumes "plain b1" "plain b2" "tailOk t1" "tailOk t2" "b1 @ t1 = b2 @ t2"
  shows "b1 = b2"
  using takeWhile_plain [OF assms(1,3)] takeWhile_plain [OF assms(2,4)] assms(5) by simp

lemma distinct_concat_map_by_tag:
  assumes "distinct (map tag xs)" "\<And>x. x \<in> set xs \<Longrightarrow> distinct (f x)"
    "\<And>x y s. x \<in> set xs \<Longrightarrow> y \<in> set xs \<Longrightarrow> s \<in> set (f x) \<Longrightarrow> s \<in> set (f y) \<Longrightarrow> tag x = tag y"
  shows "distinct (concat (map f xs))"
  using assms
proof (induction xs)
  case Nil
  then show ?case by simp
next
  case (Cons x xs)
  have "distinct (concat (map f xs))"
    using Cons.prems by (intro Cons.IH) auto
  moreover have "distinct (f x)" using Cons.prems(2) by simp
  moreover have "set (f x) \<inter> set (concat (map f xs)) = {}"
  proof (rule ccontr)
    assume "set (f x) \<inter> set (concat (map f xs)) \<noteq> {}"
    then obtain s y where "s \<in> set (f x)" "y \<in> set xs" "s \<in> set (f y)" by auto
    then have "tag x = tag y" using Cons.prems(3) [of x y s] by simp
    then show False using Cons.prems(1) \<open>y \<in> set xs\<close> by auto
  qed
  ultimately show ?case by simp
qed

lemma getAllPaths_arr:
  "getAllPaths (JArr xs) p =
     p # concat (map (\<lambda>ix. getAllPaths (snd ix) (idxPath p (fst ix))) (enumerate 0 xs))"
  by (simp add: foldl_append_concat [where g = "\<lambda>ix. getAllPaths (snd ix) (idxPath p (fst ix))"])

lemma getAllPaths_obj:
  assumes "distinct (map fst kvs)"
  shows "getAllPaths (JObj kvs) p =
     p # concat (map (\<lambda>kv. getAllPaths (snd kv) (keyPath p (fst kv))) kvs)"
proof -
  have "getAllPaths (JObj kvs) p =
     p # concat (map (\<lambda>k. case map_of kvs k of Some child \<Rightarrow> getAllPaths child (keyPath p k) | None \<Rightarrow> [])
       (map fst kvs))"
    by (simp add: foldl_append_concat [where g = "\<lambda>k. case map_of kvs k of
          Some child \<Rightarrow> getAllPaths child (keyPath p k) | None \<Rightarrow> []"] split: option.splits)
  moreover have "map (\<lambda>k. case map_of kvs k of Some child \<Rightarrow> getAllPaths child (keyPath p k) | None \<Rightarrow> [])
       (map fst kvs) = map (\<lambda>kv. getAllPaths (snd kv) (keyPath p (fst kv))) kvs"
    by (simp add: map_of_distinct_fst [OF assms])
  ultimately show ?thesis by (simp only:)
qed

declare getAllPaths.simps(1,2) [simp del]

lemma children_paths:
  fixes q pre :: string
  assumes tagd: "distinct (map tag cs)"
    and body: "\<And>c. c \<in> set cs \<Longrightarrow> plain (body c)"
    and inj: "\<And>c d. c \<in> set cs \<Longrightarrow> d \<in> set cs \<Longrightarrow> body c = body d \<Longrightarrow> tag c = tag d"
    and nonempty: "\<And>c. c \<in> set cs \<Longrightarrow> pre @ body c \<noteq> []"
    and sub: "\<And>c. c \<in> set cs \<Longrightarrow>
        distinct (f c) \<and> (\<forall>s\<in>set (f c). \<exists>t. s = (q @ pre @ body c) @ t \<and> tailOk t)"
    and pre: "pre = [] \<or> special (hd pre)"
  shows "distinct (q # concat (map f cs))"
    and "\<forall>s\<in>set (q # concat (map f cs)). \<exists>t. s = q @ t \<and> (pre \<noteq> [] \<longrightarrow> tailOk t)"
proof -
  have form: "\<exists>t. s = q @ pre @ body c @ t \<and> tailOk t" if "c \<in> set cs" "s \<in> set (f c)" for c s
    using sub [OF that(1)] that(2) by auto
  have "q \<notin> set (concat (map f cs))"
  proof
    assume "q \<in> set (concat (map f cs))"
    then obtain c where c: "c \<in> set cs" "q \<in> set (f c)" by auto
    then obtain t where "q = q @ pre @ body c @ t" using form by blast
    then have "pre @ body c = []" by simp
    then show False using nonempty [OF c(1)] by simp
  qed
  moreover have "distinct (concat (map f cs))"
  proof (rule distinct_concat_map_by_tag [where tag = tag])
    show "distinct (map tag cs)" by (rule tagd)
  next
    fix c assume "c \<in> set cs"
    then show "distinct (f c)" using sub by simp
  next
    fix c d s assume cd: "c \<in> set cs" "d \<in> set cs" and s: "s \<in> set (f c)" "s \<in> set (f d)"
    obtain t1 where t1: "s = q @ pre @ body c @ t1" "tailOk t1" using form [OF cd(1) s(1)] by blast
    obtain t2 where t2: "s = q @ pre @ body d @ t2" "tailOk t2" using form [OF cd(2) s(2)] by blast
    from t1(1) t2(1) have "body c @ t1 = body d @ t2" by simp
    then have "body c = body d"
      using body_unique [OF body [OF cd(1)] body [OF cd(2)] t1(2) t2(2)] by simp
    then show "tag c = tag d" by (rule inj [OF cd])
  qed
  ultimately show "distinct (q # concat (map f cs))" by simp
  show "\<forall>s\<in>set (q # concat (map f cs)). \<exists>t. s = q @ t \<and> (pre \<noteq> [] \<longrightarrow> tailOk t)"
  proof
    fix s assume "s \<in> set (q # concat (map f cs))"
    then consider "s = q" | c where "c \<in> set cs" "s \<in> set (f c)" by auto
    then show "\<exists>t. s = q @ t \<and> (pre \<noteq> [] \<longrightarrow> tailOk t)"
    proof cases
      case 1
      then have "s = q @ [] \<and> (pre \<noteq> [] \<longrightarrow> tailOk [])" by (simp add: tailOk_def)
      then show ?thesis by blast
    next
      case 2
      then obtain t where "s = q @ pre @ body c @ t" using form by blast
      moreover have "pre \<noteq> [] \<longrightarrow> tailOk (pre @ body c @ t)"
        using pre by (auto simp: tailOk_def)
      ultimately show ?thesis by blast
    qed
  qed
qed

lemma plain_index_body: "plain (showNat i @ '']'')"
  using plain_showNat [of i] by (simp add: plain_def special_def)

lemma paths_distinct_under:
  "wfJson v \<Longrightarrow> plainKeys v \<Longrightarrow>
   distinct (getAllPaths v q) \<and>
   (\<forall>s\<in>set (getAllPaths v q). \<exists>t. s = q @ t \<and> (q \<noteq> [] \<longrightarrow> tailOk t))"
proof (induction v arbitrary: q)
  case (JArr xs)
  let ?f = "\<lambda>ix. getAllPaths (snd ix) (idxPath q (fst ix))"
  have sub: "distinct (?f ix) \<and>
      (\<forall>s\<in>set (?f ix). \<exists>t. s = (q @ ''['' @ (showNat (fst ix) @ '']'')) @ t \<and> tailOk t)"
    if "ix \<in> set (enumerate 0 xs)" for ix
  proof -
    from that have "fst ix < length xs" "xs ! fst ix = snd ix"
      by (auto simp: in_set_enumerate_eq)
    then have m: "snd ix \<in> set xs" using nth_mem [of "fst ix" xs] by simp
    then have "wfJson (snd ix)" "plainKeys (snd ix)"
      using JArr.prems by (auto simp: plainKeys_def list_all_iff)
    then show ?thesis
      using JArr.IH [OF m, of "idxPath q (fst ix)"] by (simp add: idxPath_def)
  qed
  have a1: "distinct (map fst (enumerate 0 xs))" by simp
  have a2: "plain (showNat (fst ix) @ '']'')" for ix :: "nat \<times> 'a json"
    by (rule plain_index_body)
  have a3: "fst c = fst d" if "showNat (fst c) @ '']'' = showNat (fst d) @ '']''"
    for c d :: "nat \<times> 'a json"
    using that showNat_inj by simp
  have a4: "''['' @ showNat (fst ix) @ '']'' \<noteq> []" for ix :: "nat \<times> 'a json" by simp
  have a6: "''['' = [] \<or> special (hd ''['')" by (simp add: special_def)
  have "distinct (q # concat (map ?f (enumerate 0 xs)))"
    and "\<forall>s\<in>set (q # concat (map ?f (enumerate 0 xs))). \<exists>t. s = q @ t \<and> (''['' \<noteq> [] \<longrightarrow> tailOk t)"
    using children_paths [of fst "enumerate 0 xs" "\<lambda>ix. showNat (fst ix) @ '']''" "''[''" ?f q,
        OF a1 a2 a3 a4 sub a6]
    by blast+
  then have "distinct (q # concat (map ?f (enumerate 0 xs)))"
    and "\<forall>s\<in>set (q # concat (map ?f (enumerate 0 xs))). \<exists>t. s = q @ t \<and> (q \<noteq> [] \<longrightarrow> tailOk t)"
    by (blast, fastforce)
  then show ?case by (simp only: getAllPaths_arr simp_thms)
next
  case (JObj kvs)
  let ?pre = "if q = [] then [] else ''.''"
  let ?f = "\<lambda>kv. getAllPaths (snd kv) (keyPath q (fst kv))"
  have d: "distinct (map fst kvs)" using JObj.prems by simp
  have keys: "fst kv \<noteq> []" "plain (fst kv)" if "kv \<in> set kvs" for kv
    using JObj.prems(2) that by (auto simp: plainKeys_def list_all_iff)
  have sub: "distinct (?f kv) \<and>
      (\<forall>s\<in>set (?f kv). \<exists>t. s = (q @ ?pre @ fst kv) @ t \<and> tailOk t)"
    if "kv \<in> set kvs" for kv
  proof -
    have "wfJson (snd kv)" "plainKeys (snd kv)"
      using JObj.prems that by (auto simp: plainKeys_def list_all_iff)
    moreover have "keyPath q (fst kv) \<noteq> []" using keys [OF that] by (simp add: keyPath_def)
    moreover have "keyPath q (fst kv) = q @ ?pre @ fst kv" by (simp add: keyPath_def)
    ultimately show ?thesis
      using JObj.IH [of kv "snd kv" "keyPath q (fst kv)"] that by (cases kv) auto
  qed
  have b4: "?pre @ fst kv \<noteq> []" if "kv \<in> set kvs" for kv
    using keys(1) [OF that] by simp
  have b3: "fst c = fst d" if "fst c = fst d" for c d :: "string \<times> 'a json"
    by (rule that)
  have b6: "?pre = [] \<or> special (hd ?pre)" by (simp add: special_def)
  have "distinct (q # concat (map ?f kvs))"
    and "\<forall>s\<in>set (q # concat (map ?f kvs)). \<exists>t. s = q @ t \<and> (?pre \<noteq> [] \<longrightarrow> tailOk t)"
    using children_paths [of fst kvs fst ?pre ?f q, OF d keys(2) b3 b4 sub b6]
    by blast+
  then have "distinct (q # concat (map ?f kvs))"
    and "\<forall>s\<in>set (q # concat (map ?f kvs)). \<exists>t. s = q @ t \<and> (q \<noteq> [] \<longrightarrow> tailOk t)"
    by (blast, fastforce)
  then show ?case by (simp only: getAllPaths_obj [OF d] simp_thms)
qed (simp_all add: tailOk_def)

lemma subseq_set_distinct:
  "subseq xs ys \<Longrightarrow> set xs \<subseteq> set ys \<and> (distinct ys \<longrightarrow> distinct xs)"
  by (induction rule: list_emb.induct) auto

lemma subseq_concat_map:
  "(\<And>x. x \<in> set xs \<Longrightarrow> subseq (f x) (g x)) \<Longrightarrow> subseq (concat (map f xs)) (concat (map g xs))"
  by (induction xs) (simp_all add: list_emb_append_mono)

lemma map_upt_enumerate:
  "map (\<lambda>i. h i (xs ! i)) [0..<length xs] = map (\<lambda>ix. h (fst ix) (snd ix)) (enumerate 0 xs)"
  by (rule nth_equalityI) (simp_all add: nth_enumerate_eq)

lemma enumerate_member: "ix \<in> set (enumerate 0 xs) \<Longrightarrow> snd ix \<in> set xs"
proof -
  assume "ix \<in> set (enumerate 0 xs)"
  then have "fst ix < length xs" "xs ! fst ix = snd ix"
    by (auto simp: in_set_enumerate_eq)
  then show ?thesis using nth_mem [of "fst ix" xs] by simp
qed

lemma rows_subseq:
  "wfJson v \<Longrightarrow> subseq (map JsonNode.path (parseJsonToNodes E ns v p l)) (getAllPaths v p)"
proof (induction v arbitrary: p l)
  case (JArr xs)
  have "subseq (map JsonNode.path (parseJsonToNodes E ns (snd ix) (idxPath p (fst ix)) (Suc l)))
      (getAllPaths (snd ix) (idxPath p (fst ix)))" if "ix \<in> set (enumerate 0 xs)" for ix
    using JArr.IH [OF enumerate_member [OF that]] JArr.prems enumerate_member [OF that]
    by (simp add: list_all_iff)
  then have "subseq
      (concat (map (\<lambda>ix. map JsonNode.path (parseJsonToNodes E ns (snd ix) (idxPath p (fst ix)) (Suc l)))
         (enumerate 0 xs)))
      (concat (map (\<lambda>ix. getAllPaths (snd ix) (idxPath p (fst ix))) (enumerate 0 xs)))"
    by (rule subseq_concat_map)
  then show ?case
    by (simp add: nodes_arr getAllPaths_arr map_concat comp_def)
next
  case (JObj kvs)
  have d: "distinct (map fst kvs)" using JObj.prems by simp
  have "subseq (map JsonNode.path (parseJsonToNodes E ns (snd kv) (keyPath p (fst kv)) (Suc l)))
      (getAllPaths (snd kv) (keyPath p (fst kv)))" if "kv \<in> set kvs" for kv
    using JObj.IH [of kv "snd kv"] JObj.prems that by (cases kv) (auto simp: list_all_iff)
  then have "subseq
      (concat (map (\<lambda>kv. map JsonNode.path (parseJsonToNodes E ns (snd kv) (keyPath p (fst kv)) (Suc l))) kvs))
      (concat (map (\<lambda>kv. getAllPaths (snd kv) (keyPath p (fst kv))) kvs))"
    by (rule subseq_concat_map)
  then show ?case
    by (simp add: nodes_obj_wf [OF d] getAllPaths_obj [OF d] map_concat comp_def)
qed simp_all

lemma diff_self_subseq:
  "wfJson v \<Longrightarrow> p \<noteq> [] \<Longrightarrow>
   subseq (map path (records (generateSmartJsonDiff v v p))) (getAllPaths v p)"
proof (induction v arbitrary: p)
  case (JArr xs)
  have "subseq (map path (records (generateSmartJsonDiff (snd ix) (snd ix) (idxPath p (fst ix)))))
      (getAllPaths (snd ix) (idxPath p (fst ix)))" if "ix \<in> set (enumerate 0 xs)" for ix
    using JArr.IH [OF enumerate_member [OF that]] JArr.prems enumerate_member [OF that]
    by (simp add: list_all_iff)
  then have "subseq
      (concat (map (\<lambda>ix. map path (records (generateSmartJsonDiff (snd ix) (snd ix) (idxPath p (fst ix)))))
         (enumerate 0 xs)))
      (p # concat (map (\<lambda>ix. getAllPaths (snd ix) (idxPath p (fst ix))) (enumerate 0 xs)))"
    by (intro list_emb_Cons subseq_concat_map)
  moreover have "map (\<lambda>i. map path (records (generateSmartJsonDiff (xs ! i) (xs ! i) (idxPath p i)))) [0..<length xs]
      = map (\<lambda>ix. map path (records (generateSmartJsonDiff (snd ix) (snd ix) (idxPath p (fst ix))))) (enumerate 0 xs)"
    by (rule map_upt_enumerate)
  ultimately show ?case
    by (simp add: records_self_arr [OF JArr.prems(1)] getAllPaths_arr map_concat comp_def)
next
  case (JObj kvs)
  have d: "distinct (map fst kvs)" using JObj.prems by simp
  have "subseq (map path (records (generateSmartJsonDiff (snd kv) (snd kv) (keyPath p (fst kv)))))
      (getAllPaths (snd kv) (keyPath p (fst kv)))" if "kv \<in> set kvs" for kv
  proof -
    have "keyPath p (fst kv) \<noteq> []" using JObj.prems(2) by (simp add: keyPath_def)
    then show ?thesis
      using JObj.IH [of kv "snd kv"] JObj.prems(1) that by (cases kv) (auto simp: list_all_iff)
  qed
  then have "subseq
      (concat (map (\<lambda>kv. map path (records (generateSmartJsonDiff (snd kv) (snd kv) (keyPath p (fst kv))))) kvs))
      (p # concat (map (\<lambda>kv. getAllPaths (snd kv) (keyPath p (fst kv))) kvs))"
    by (intro list_emb_Cons subseq_concat_map)
  then show ?case
    by (simp add: records_self_obj [OF JObj.prems(1)] getAllPaths_obj [OF d] map_concat comp_def)
qed (simp_all add: diff_leaf orRoot_def mkUnchanged_def)

lemma diff_self_children_subseq:
  assumes "isObject v" "wfJson v" "plainKeys v"
  shows "subseq (map path (records (generateSmartJsonDiff v v p))) (tl (getAllPaths v p))"
proof (cases v)
  case (JArr xs)
  have w: "wfJson (JArr xs)" using assms(2) JArr by simp
  have "subseq (map path (records (generateSmartJsonDiff (snd ix) (snd ix) (idxPath p (fst ix)))))
      (getAllPaths (snd ix) (idxPath p (fst ix)))" if "ix \<in> set (enumerate 0 xs)" for ix
    using w enumerate_member [OF that]
    by (intro diff_self_subseq) (simp_all add: list_all_iff idxPath_def)
  then have "subseq
      (concat (map (\<lambda>ix. map path (records (generateSmartJsonDiff (snd ix) (snd ix) (idxPath p (fst ix)))))
         (enumerate 0 xs)))
      (concat (map (\<lambda>ix. getAllPaths (snd ix) (idxPath p (fst ix))) (enumerate 0 xs)))"
    by (rule subseq_concat_map)
  moreover have "map (\<lambda>i. map path (records (generateSmartJsonDiff (xs ! i) (xs ! i) (idxPath p i)))) [0..<length xs]
      = map (\<lambda>ix. map path (records (generateSmartJsonDiff (snd ix) (snd ix) (idxPath p (fst ix))))) (enumerate 0 xs)"
    by (rule map_upt_enumerate)
  ultimately show ?thesis
    unfolding JArr by (simp add: records_self_arr [OF w] getAllPaths_arr map_concat comp_def)
next
  case (JObj kvs)
  have w: "wfJson (JObj kvs)" using assms(2) JObj by simp
  have d: "distinct (map fst kvs)" using w by simp
  have "subseq (map path (records (generateSmartJsonDiff (snd kv) (snd kv) (keyPath p (fst kv)))))
      (getAllPaths (snd kv) (keyPath p (fst kv)))" if "kv \<in> set kvs" for kv
  proof (rule diff_self_subseq)
    show "wfJson (snd kv)" using w that by (simp add: list_all_iff)
    have "fst kv \<noteq> []" using assms(3) that unfolding JObj by (auto simp: plainKeys_def list_all_iff)
    then show "keyPath p (fst kv) \<noteq> []" by (simp add: keyPath_def)
  qed
  then have "subseq
      (concat (map (\<lambda>kv. map path (records (generateSmartJsonDiff (snd kv) (snd kv) (keyPath p (fst kv))))) kvs))
      (concat (map (\<lambda>kv. getAllPaths (snd kv) (keyPath p (fst kv))) kvs))"
    by (rule subseq_concat_map)
  then show ?thesis
    unfolding JObj by (simp add: records_self_obj [OF w] getAllPaths_obj [OF d] map_concat comp_def)
qed (use assms in simp_all)

lemma diff_self_paths_distinct:
  assumes "wfJson v" "plainKeys v"
  shows "distinct (map path (records (generateSmartJsonDiff v v p)))"
proof (cases "isObject v")
  case True
  have "distinct (getAllPaths v p)" using paths_distinct_under [OF assms] by simp
  then have "distinct (tl (getAllPaths v p))" by (rule distinct_tl)
  then show ?thesis
    using subseq_set_distinct [OF diff_self_children_subseq [OF True assms, of p]] by simp
next
  case False
  then show ?thesis by (simp add: diff_leaf isEqual_leaf_refl)
qed

lemma rows_paths_distinct:
  assumes "wfJson v" "plainKeys v"
  shows "distinct (map JsonNode.path (parseJsonToNodes E ns v p l))"
  using subseq_set_distinct [OF rows_subseq [OF assms(1), of E ns p l]] paths_distinct_under [OF assms, of p]
  by simp

text \<open>The paths of \<open>nodesAt\<close> are those of \<^verbatim>\<open>getAllPaths\<close>.\<close>

lemma nodesAt_paths: "wfJson v \<Longrightarrow> map fst (nodesAt v p) = getAllPaths v p"
proof (induction v arbitrary: p)
  case (JArr xs)
  have "map fst (nodesAt (snd ix) q) = getAllPaths (snd ix) q"
    if "ix \<in> set (enumerate 0 xs)" for ix q
    using JArr.IH [OF enumerate_member [OF that]] JArr.prems enumerate_member [OF that]
    by (simp add: list_all_iff)
  then have e: "map (\<lambda>ix. map fst (nodesAt (snd ix) (idxPath p (fst ix)))) (enumerate 0 xs) =
      map (\<lambda>ix. getAllPaths (snd ix) (idxPath p (fst ix))) (enumerate 0 xs)"
    by (intro map_cong) simp_all
  have "map fst (nodesAt (JArr xs) p) =
      p # concat (map (\<lambda>ix. map fst (nodesAt (snd ix) (idxPath p (fst ix)))) (enumerate 0 xs))"
    by (simp add: map_concat comp_def)
  then show ?case by (simp only: e getAllPaths_arr)
next
  case (JObj kvs)
  have d: "distinct (map fst kvs)" using JObj.prems by simp
  have "map fst (nodesAt (snd kv) q) = getAllPaths (snd kv) q" if "kv \<in> set kvs" for kv q
    using JObj.IH [of kv "snd kv" q] JObj.prems that by (cases kv) (auto simp: list_all_iff)
  then have e: "map (\<lambda>kv. map fst (nodesAt (snd kv) (keyPath p (fst kv)))) kvs =
      map (\<lambda>kv. getAllPaths (snd kv) (keyPath p (fst kv))) kvs"
    by (intro map_cong) simp_all
  have "map fst (nodesAt (JObj kvs) p) =
      p # concat (map (\<lambda>kv. map fst (nodesAt (snd kv) (keyPath p (fst kv)))) kvs)"
    by (simp add: map_concat comp_def)
  then show ?case by (simp only: e getAllPaths_obj [OF d])
qed simp_all

lemma diffLabels_head: "(orRoot p, v) \<in> set (diffLabels v p)"
proof -
  have "(p, v) \<in> set (nodesAt v p)" by (cases v) simp_all
  then have "(orRoot (fst (p, v)), snd (p, v)) \<in> (\<lambda>qx. (orRoot (fst qx), snd qx)) ` set (nodesAt v p)"
    by (rule imageI)
  then show ?thesis by (simp add: diffLabels_def)
qed

lemma diffLabels_elem:
  assumes "i < length xs"
  shows "set (diffLabels (xs ! i) (idxPath p i)) \<subseteq> set (diffLabels (JArr xs) p)"
proof -
  have "(i, xs ! i) \<in> set (enumerate 0 xs)" using assms by (simp add: in_set_enumerate_eq)
  then have "set (nodesAt (xs ! i) (idxPath p i)) \<subseteq> set (nodesAt (JArr xs) p)" by force
  then show ?thesis unfolding diffLabels_def set_map by (rule image_mono)
qed

lemma diffLabels_prop:
  assumes "(k, v) \<in> set kvs"
  shows "set (diffLabels v (keyPath p k)) \<subseteq> set (diffLabels (JObj kvs) p)"
proof -
  have "set (nodesAt v (keyPath p k)) \<subseteq> set (nodesAt (JObj kvs) p)" using assms by force
  then show ?thesis unfolding diffLabels_def set_map by (rule image_mono)
qed

text \<open>
  Every record of a diff holds, as its left value, the node of the left document with
  the record's path as label, and as its right value the node of the right document with
  that label.
\<close>

lemma diff_left_labels:
  "plainKeys a \<Longrightarrow> d \<in> set (records (generateSmartJsonDiff a b p)) \<Longrightarrow> leftValue d = Some x \<Longrightarrow>
     (path d, x) \<in> set (diffLabels a p)"
proof (induction a arbitrary: b p)
  case (JArr xs)
  show ?case
  proof (cases "isArray b")
    case False
    then have "\<not> isObject (JArr xs) \<or> \<not> isObject b \<or> isArray (JArr xs) \<noteq> isArray b" by simp
    from diff_single [OF this JArr.prems(2)] JArr.prems(3) show ?thesis
      using diffLabels_head [of p "JArr xs"] by simp
  next
    case True
    then obtain ys where b: "b = JArr ys" by (cases b) simp_all
    let ?is = "[0..<max (length xs) (length ys)]"
    have m: "d \<in> set (records (collect (map (arrStep xs ys p) ?is)))"
      using JArr.prems(2) by (simp add: b diff_arr)
    then have "\<not> isl (collect (map (arrStep xs ys p) ?is))"
      using records_isl by fastforce
    then have "set (records (collect (map (arrStep xs ys p) ?is))) =
        (\<Union>r \<in> set (map (arrStep xs ys p) ?is). set (records r))"
      by (rule set_records_collect)
    with m obtain i where i: "d \<in> set (records (arrStep xs ys p i))" by auto
    show ?thesis
    proof (cases "i < length xs")
      case False
      then have "d = mkAdded (idxPath p i) (ys ! i)" using i by (simp add: arrStep_def)
      then show ?thesis using JArr.prems(3) by (simp add: mkAdded_def)
    next
      case lt: True
      have sub: "set (diffLabels (xs ! i) (idxPath p i)) \<subseteq> set (diffLabels (JArr xs) p)"
        by (rule diffLabels_elem [OF lt])
      have pk: "plainKeys (xs ! i)"
        using JArr.prems(1) nth_mem [OF lt] by (simp add: plainKeys_def list_all_iff)
      show ?thesis
      proof (cases "i < length ys")
        case False
        then have "d = mkRemoved (idxPath p i) (xs ! i)" using i lt by (simp add: arrStep_def)
        then have "path d = orRoot (idxPath p i)" "x = xs ! i"
          using JArr.prems(3) by (simp_all add: mkRemoved_def orRoot_def idxPath_def)
        then show ?thesis using sub diffLabels_head [of "idxPath p i" "xs ! i"] by auto
      next
        case True
        then have "d \<in> set (records (generateSmartJsonDiff (xs ! i) (ys ! i) (idxPath p i)))"
          using i lt by (simp add: arrStep_def)
        then have "(path d, x) \<in> set (diffLabels (xs ! i) (idxPath p i))"
          using JArr.IH [OF nth_mem [OF lt] pk _ JArr.prems(3)] by blast
        then show ?thesis using sub by blast
      qed
    qed
  qed
next
  case (JObj l)
  show ?case
  proof (cases "isObject b \<and> \<not> isArray b")
    case False
    then have "\<not> isObject (JObj l) \<or> \<not> isObject b \<or> isArray (JObj l) \<noteq> isArray b" by auto
    from diff_single [OF this JObj.prems(2)] JObj.prems(3) show ?thesis
      using diffLabels_head [of p "JObj l"] by simp
  next
    case True
    then obtain r where b: "b = JObj r" by (cases b) simp_all
    let ?ks = "uniq (map fst l @ map fst r)"
    have m: "d \<in> set (records (collect (map (objStep l r p) ?ks)))"
      using JObj.prems(2) by (simp add: b diff_obj)
    then have "\<not> isl (collect (map (objStep l r p) ?ks))"
      using records_isl by fastforce
    then have "set (records (collect (map (objStep l r p) ?ks))) =
        (\<Union>r \<in> set (map (objStep l r p) ?ks). set (records r))"
      by (rule set_records_collect)
    with m obtain k where k: "d \<in> set (records (objStep l r p k))" by auto
    show ?thesis
    proof (cases "map_of l k")
      case None
      then have "leftValue d = None"
        using k by (cases "map_of r k") (simp_all add: objStep_def mkAdded_def)
      then show ?thesis using JObj.prems(3) by simp
    next
      case (Some v)
      then have mem: "(k, v) \<in> set l" by (rule map_of_SomeD)
      have sub: "set (diffLabels v (keyPath p k)) \<subseteq> set (diffLabels (JObj l) p)"
        by (rule diffLabels_prop [OF mem])
      have pk: "plainKeys v" and ne: "k \<noteq> []"
        using JObj.prems(1) mem by (auto simp: plainKeys_def list_all_iff)
      show ?thesis
      proof (cases "map_of r k")
        case None
        then have "d = mkRemoved (keyPath p k) v" using k Some by (simp add: objStep_def)
        then have "path d = orRoot (keyPath p k)" "x = v"
          using JObj.prems(3) ne by (simp_all add: mkRemoved_def orRoot_def keyPath_def)
        then show ?thesis using sub diffLabels_head [of "keyPath p k" v] by auto
      next
        case (Some w)
        then have "d \<in> set (records (generateSmartJsonDiff v w (keyPath p k)))"
          using k \<open>map_of l k = Some v\<close> by (simp add: objStep_def)
        then have "(path d, x) \<in> set (diffLabels v (keyPath p k))"
          using JObj.IH [of "(k, v)" v w "keyPath p k"] mem pk JObj.prems(3) by simp
        then show ?thesis using sub by blast
      qed
    qed
  qed
next
  case JNull
  have "\<not> isObject JNull \<or> \<not> isObject b \<or> isArray (JNull :: 'a json) \<noteq> isArray b" by simp
  from diff_single [OF this JNull(2)] JNull(3) show ?case
    using diffLabels_head [of p "JNull :: 'a json"] by simp
next
  case (JBool t)
  have "\<not> isObject (JBool t) \<or> \<not> isObject b \<or> isArray (JBool t :: 'a json) \<noteq> isArray b" by simp
  from diff_single [OF this JBool(2)] JBool(3) show ?case
    using diffLabels_head [of p "JBool t :: 'a json"] by simp
next
  case (JNum n)
  have "\<not> isObject (JNum n) \<or> \<not> isObject b \<or> isArray (JNum n) \<noteq> isArray b" by simp
  from diff_single [OF this JNum(2)] JNum(3) show ?case
    using diffLabels_head [of p "JNum n"] by simp
next
  case (JStr s)
  have "\<not> isObject (JStr s) \<or> \<not> isObject b \<or> isArray (JStr s :: 'a json) \<noteq> isArray b" by simp
  from diff_single [OF this JStr(2)] JStr(3) show ?case
    using diffLabels_head [of p "JStr s :: 'a json"] by simp
qed

lemma diff_right_labels:
  assumes "plainKeys b" "d \<in> set (records (generateSmartJsonDiff a b p))" "rightValue d = Some y"
  shows "(path d, y) \<in> set (diffLabels b p)"
proof -
  have "set (records (generateSmartJsonDiff b a p)) =
      swapRecord ` set (records (generateSmartJsonDiff a b p))"
    using diff_swap [of b a p] by (simp add: swapped_def)
  then have "swapRecord d \<in> set (records (generateSmartJsonDiff b a p))"
    using assms(2) by simp
  moreover have "leftValue (swapRecord d) = Some y" "path (swapRecord d) = path d"
    using assms(3) by (simp_all add: swapRecord_def)
  ultimately show ?thesis
    using diff_left_labels [OF assms(1), of "swapRecord d" a p y] by simp
qed

text \<open>
  Below the root no path is empty, and the path \<^verbatim>\<open>root\<close> is that of the value under
  the key \<^verbatim>\<open>root\<close> of the document.
\<close>

lemma getAllPaths_head: "wfJson v \<Longrightarrow> getAllPaths v p = p # tl (getAllPaths v p)"
  by (cases v) (simp_all add: getAllPaths_arr getAllPaths_obj)

lemma below_root:
  assumes "wfJson v" "plainKeys v" "s \<in> set (tl (getAllPaths v []))"
  shows "s \<noteq> [] \<and> (s = ''root'' \<longrightarrow> hasRootKey v)"
proof (cases v)
  case (JArr xs)
  from assms(3) obtain ix where ix: "ix \<in> set (enumerate 0 xs)"
      "s \<in> set (getAllPaths (snd ix) (idxPath [] (fst ix)))"
    unfolding JArr by (auto simp: getAllPaths_arr)
  have "wfJson (snd ix)" "plainKeys (snd ix)"
    using assms(1,2) enumerate_member [OF ix(1)] unfolding JArr
    by (simp_all add: plainKeys_def list_all_iff)
  from paths_distinct_under [OF this, of "idxPath [] (fst ix)"] ix(2)
  obtain t where "s = idxPath [] (fst ix) @ t" by blast
  then have "s = CHR ''['' # showNat (fst ix) @ '']'' @ t" by (simp add: idxPath_def)
  then show ?thesis by simp
next
  case (JObj kvs)
  have d: "distinct (map fst kvs)" using assms(1) JObj by simp
  from assms(3) obtain kv where kv: "kv \<in> set kvs"
      "s \<in> set (getAllPaths (snd kv) (keyPath [] (fst kv)))"
    unfolding JObj by (auto simp: getAllPaths_obj [OF d])
  have k: "fst kv \<noteq> []" "plain (fst kv)"
    using assms(2) kv(1) unfolding JObj by (auto simp: plainKeys_def list_all_iff)
  have "wfJson (snd kv)" "plainKeys (snd kv)"
    using assms(1,2) kv(1) unfolding JObj by (auto simp: plainKeys_def list_all_iff)
  from paths_distinct_under [OF this, of "keyPath [] (fst kv)"] kv(2) k(1)
  obtain t where t: "s = fst kv @ t" "tailOk t" by (auto simp: keyPath_def)
  have "fst kv = ''root''" if "s = ''root''"
  proof -
    have "plain ''root''" "tailOk []" by (simp_all add: plain_def special_def tailOk_def)
    moreover have "fst kv @ t = ''root'' @ []" using t(1) that by simp
    ultimately show ?thesis using body_unique [OF k(2) _ t(2)] by blast
  qed
  then have "s = ''root'' \<longrightarrow> hasRootKey v" using kv(1) unfolding JObj
    by (auto intro: rev_image_eqI)
  then show ?thesis using t(1) k(1) by simp
qed (use assms in simp_all)

lemma labels_distinct:
  assumes "wfJson v" "plainKeys v" "\<not> hasRootKey v"
  shows "distinct (map fst (diffLabels v []))"
proof -
  let ?rest = "tl (getAllPaths v [])"
  have g: "getAllPaths v [] = [] # ?rest" by (rule getAllPaths_head [OF assms(1)])
  have "distinct ([] # ?rest)"
    using paths_distinct_under [OF assms(1,2), of "[]"] g by simp
  then have dr: "distinct ?rest" by simp
  have nr: "s \<noteq> [] \<and> s \<noteq> ''root''" if "s \<in> set ?rest" for s
    using below_root [OF assms(1,2) that] assms(3) by blast
  then have "map orRoot ?rest = ?rest"
    by (intro map_idI) (simp add: orRoot_def)
  moreover have "''root'' \<notin> set ?rest" using nr by blast
  ultimately have "distinct (map orRoot ([] # ?rest))"
    using dr by (simp add: orRoot_def)
  then have "distinct (map orRoot (getAllPaths v []))" using g by simp
  moreover have "map fst (diffLabels v []) = map orRoot (map fst (nodesAt v []))"
    by (simp add: diffLabels_def comp_def)
  ultimately show ?thesis by (simp add: nodesAt_paths [OF assms(1)])
qed

text \<open>
  C8 (as the code has it). In a parsed value whose object keys are all non-empty and have
  neither a dot nor an opening bracket, different nodes have different path strings. The
  paths of all nodes (\<^verbatim>\<open>getAllPaths\<close>, the paths of \<open>nodesAt\<close>) are pairwise different, and
  so are the paths of the rows of the tree view, whatever is expanded, and the paths of
  the records of the diff of the value with itself. The diff engine reports the node at
  the empty path as \<^verbatim>\<open>root\<close>: the strings it gives the nodes of the value (\<open>diffLabels\<close>)
  are pairwise different when the value is not an object with the key \<^verbatim>\<open>root\<close> at its
  top level, and in the diff of the value against any other, on either side, a record
  that holds a value of this document holds the node with the record's path as its string.
\<close>

theorem paths_unique_for_plain_keys:
  "wfJson v \<Longrightarrow> plainKeys v \<Longrightarrow>
     distinct (getAllPaths v [])
     \<and> map fst (nodesAt v []) = getAllPaths v []
     \<and> distinct (map JsonNode.path (parseJsonToNodes expanded numStr v [] 0))
     \<and> distinct (map path (records (generateSmartJsonDiff v v [])))
     \<and> (\<not> hasRootKey v \<longrightarrow> distinct (map fst (diffLabels v [])))
     \<and> (\<forall>d \<in> set (records (generateSmartJsonDiff v b [])). \<forall>x.
          leftValue d = Some x \<longrightarrow> (path d, x) \<in> set (diffLabels v []))
     \<and> (\<forall>d \<in> set (records (generateSmartJsonDiff b v [])). \<forall>y.
          rightValue d = Some y \<longrightarrow> (path d, y) \<in> set (diffLabels v []))"
proof -
  assume w: "wfJson v" and k: "plainKeys v"
  have "distinct (getAllPaths v [])"
    using paths_distinct_under [OF w k, of "[]"] by simp
  moreover have "map fst (nodesAt v []) = getAllPaths v []"
    by (rule nodesAt_paths [OF w])
  moreover have "distinct (map JsonNode.path (parseJsonToNodes expanded numStr v [] 0))"
    by (rule rows_paths_distinct [OF w k])
  moreover have "distinct (map path (records (generateSmartJsonDiff v v [])))"
    by (rule diff_self_paths_distinct [OF w k])
  moreover have "\<not> hasRootKey v \<longrightarrow> distinct (map fst (diffLabels v []))"
    using labels_distinct [OF w k] by blast
  moreover have "\<forall>d \<in> set (records (generateSmartJsonDiff v b [])). \<forall>x.
          leftValue d = Some x \<longrightarrow> (path d, x) \<in> set (diffLabels v [])"
    using diff_left_labels [OF k] by blast
  moreover have "\<forall>d \<in> set (records (generateSmartJsonDiff b v [])). \<forall>y.
          rightValue d = Some y \<longrightarrow> (path d, y) \<in> set (diffLabels v [])"
    using diff_right_labels [OF k] by blast
  ultimately show ?thesis by blast
qed

theorem paths_unique_for_plain_keys_witness:
  "wfJson (JObj [(''a'', JArr [JNum (1::int), JObj [(''b'', JNum 2)]]), (''c'', JNum 3)])
   \<and> plainKeys (JObj [(''a'', JArr [JNum (1::int), JObj [(''b'', JNum 2)]]), (''c'', JNum 3)])
   \<and> \<not> hasRootKey (JObj [(''a'', JArr [JNum (1::int), JObj [(''b'', JNum 2)]]), (''c'', JNum 3)])
   \<and> distinct (getAllPaths (JObj [(''a'', JArr [JNum (1::int), JObj [(''b'', JNum 2)]]), (''c'', JNum 3)]) [])
   \<and> distinct (map path (records (generateSmartJsonDiff
        (JObj [(''a'', JArr [JNum (1::int), JObj [(''b'', JNum 2)]]), (''c'', JNum 3)])
        (JObj [(''a'', JArr [JNum (1::int), JObj [(''b'', JNum 2)]]), (''c'', JNum 3)]) [])))
   \<and> distinct (map fst (diffLabels
        (JObj [(''a'', JArr [JNum (1::int), JObj [(''b'', JNum 2)]]), (''c'', JNum 3)]) []))
   \<and> \<lparr>path = ''a[1].b'', type = Changed, leftValue = Some (JNum 2), rightValue = Some (JNum 5)\<rparr>
        \<in> set (records (generateSmartJsonDiff
          (JObj [(''a'', JArr [JNum (1::int), JObj [(''b'', JNum 2)]]), (''c'', JNum 3)])
          (JObj [(''a'', JArr [JNum (1::int), JObj [(''b'', JNum 5)]])]) []))
   \<and> (''a[1].b'', JNum 2) \<in> set (diffLabels
        (JObj [(''a'', JArr [JNum (1::int), JObj [(''b'', JNum 2)]]), (''c'', JNum 3)]) [])"
proof -
  let ?v = "JObj [(''a'', JArr [JNum (1::int), JObj [(''b'', JNum 2)]]), (''c'', JNum 3)]"
  let ?b = "JObj [(''a'', JArr [JNum (1::int), JObj [(''b'', JNum 5)]])]"
  let ?d = "\<lparr>path = ''a[1].b'', type = Changed, leftValue = Some (JNum (2::int)),
      rightValue = Some (JNum 5)\<rparr>"
  have w: "wfJson ?v" by simp
  have k: "plainKeys ?v" by (simp add: plainKeys_def plain_def special_def)
  have r: "\<not> hasRootKey ?v" by simp
  have d: "?d \<in> set (records (generateSmartJsonDiff ?v ?b []))"
    by (simp add: diff_eqs objStep_def arrStep_def uniq_def upt_rec keyPath_def idxPath_def
        orRoot_def showNat.simps digitChar_def mkChanged_def mkUnchanged_def mkRemoved_def)
  show ?thesis
    using paths_unique_for_plain_keys [OF w k, of _ _ ?b] w k r d by fastforce
qed

text \<open>
  C8 as stated fails for keys with a dot: in \<^verbatim>\<open>{"a.b": 1, "a": {"b": 2}}\<close> the leaf under
  the key \<open>a.b\<close> and the leaf \<open>b\<close> inside \<open>a\<close> both get the path \<open>a.b\<close>, in the list of
  all paths, in the rows of the tree view with \<open>a\<close> expanded, and in the diff records.
  It fails likewise for a key with an opening bracket (\<^verbatim>\<open>{"a[0]": 1, "a": [2]}\<close>) and for
  the empty key, whose value gets the path of its parent (\<^verbatim>\<open>{"": 1}\<close>). In the diff
  engine it fails for the key \<^verbatim>\<open>root\<close> at the top level as well: the diff of
  \<^verbatim>\<open>{"root": 1}\<close> against \<^verbatim>\<open>2\<close> reports the document itself at \<^verbatim>\<open>root\<close>, and the
  diff against \<^verbatim>\<open>{"root": 2}\<close> reports the value under the key at \<^verbatim>\<open>root\<close>.
\<close>

theorem paths_stated_unique_counterexample:
  "wfJson (JObj [(''a.b'', JNum (1::int)), (''a'', JObj [(''b'', JNum 2)])])
   \<and> getAllPaths (JObj [(''a.b'', JNum (1::int)), (''a'', JObj [(''b'', JNum 2)])]) []
       = [[], ''a.b'', ''a'', ''a.b'']
   \<and> map JsonNode.path (parseJsonToNodes {[], ''a''} (\<lambda>n. ''0'')
        (JObj [(''a.b'', JNum (1::int)), (''a'', JObj [(''b'', JNum 2)])]) [] 0)
       = [[], ''a.b'', ''a'', ''a.b'']
   \<and> map path (records (generateSmartJsonDiff
        (JObj [(''a.b'', JNum (1::int)), (''a'', JObj [(''b'', JNum 2)])])
        (JObj [(''a.b'', JNum (1::int)), (''a'', JObj [(''b'', JNum 2)])]) []))
       = [''a.b'', ''a.b'']
   \<and> getAllPaths (JObj [(''a[0]'', JNum (1::int)), (''a'', JArr [JNum 2])]) []
       = [[], ''a[0]'', ''a'', ''a[0]'']
   \<and> getAllPaths (JObj [([], JNum (1::int))]) [] = [[], []]
   \<and> \<not> distinct (getAllPaths (JObj [(''a.b'', JNum (1::int)), (''a'', JObj [(''b'', JNum 2)])]) [])
   \<and> \<not> distinct (map JsonNode.path (parseJsonToNodes {[], ''a''} (\<lambda>n. ''0'')
        (JObj [(''a.b'', JNum (1::int)), (''a'', JObj [(''b'', JNum 2)])]) [] 0))
   \<and> \<not> distinct (map path (records (generateSmartJsonDiff
        (JObj [(''a.b'', JNum (1::int)), (''a'', JObj [(''b'', JNum 2)])])
        (JObj [(''a.b'', JNum (1::int)), (''a'', JObj [(''b'', JNum 2)])]) [])))
   \<and> generateSmartJsonDiff (JObj [(''root'', JNum (1::int))]) (JNum 2) [] =
       Inr [\<lparr>path = ''root'', type = Changed,
             leftValue = Some (JObj [(''root'', JNum 1)]), rightValue = Some (JNum 2)\<rparr>]
   \<and> generateSmartJsonDiff (JObj [(''root'', JNum (1::int))]) (JObj [(''root'', JNum 2)]) [] =
       Inr [\<lparr>path = ''root'', type = Changed,
             leftValue = Some (JNum 1), rightValue = Some (JNum 2)\<rparr>]
   \<and> diffLabels (JObj [(''root'', JNum (1::int))]) [] =
       [(''root'', JObj [(''root'', JNum 1)]), (''root'', JNum 1)]
   \<and> wfJson (JObj [(''root'', JNum (1::int))]) \<and> plainKeys (JObj [(''root'', JNum (1::int))])"
  by (simp add: getAllPaths.simps(1,2) parseJsonToNodes.simps(5,6) diff_eqs objStep_def uniq_def keyPath_def
      orRoot_def mkUnchanged_def mkChanged_def idxPath_def showNat.simps digitChar_def
      diffLabels_def hasWrapped_def plainKeys_def plain_def special_def)

end

